theory Spec2Isabelle
  imports Complex_Main "HOL-Library.Multiset" "HOL-Library.Log_Nat"
begin

section \<open>The smart parking system of \<^verbatim>\<open>ds.c\<close>\<close>

text \<open>
  The program keeps its whole state in global variables. The model groups them as the
  source's own sections do: the min-heap of free slots, the circular waiting queue, and
  the parking tables with the history list and the revenue counter. Every function of
  the source that changes the state takes the state and returns the new one.

  Conventions of the embedding:
  \<^item> array cells hold \<open>int\<close>; an array is an \<open>int list\<close> of its declared length, read with
    \<open>!\<close> and written with \<open>[i := v]\<close>. A list has no undefined behaviour, so the
    invariant \<open>sys_inv\<close> below carries the bounds of the indices: the size of the heap, the
    front and the rear of the queue, the cars in the queue and the slots in the heap and in
    the tables are within their arrays in every reachable state (\<open>reachable_bounds\<close>);
  \<^item> counters that the source only increments from zero and decrements after testing for
    zero (\<open>heapSize\<close>, \<open>waitCount\<close>, \<open>waitFront\<close>, loop indices) are \<open>nat\<close>;
    \<open>waitRear\<close> is an \<open>int\<close>, since it holds \<open>-1\<close> for the empty queue;
  \<^item> what the environment supplies is a parameter: the number \<open>read_int\<close> parsed
    (\<open>None\<close> when it failed), the values \<open>time(NULL)\<close> returned, and whether
    \<open>malloc\<close> returned a node;
  \<^item> what a function prints is returned as a value of a result datatype.
\<close>

subsection \<open>Constants\<close>

abbreviation MAX_SLOTS :: nat where "MAX_SLOTS \<equiv> 10"
abbreviation MAX_CARS :: nat where "MAX_CARS \<equiv> 100"
abbreviation WAIT_CAP :: nat where "WAIT_CAP \<equiv> 10"
abbreviation FEE_PER_HOUR :: int where "FEE_PER_HOUR \<equiv> 50"

subsection \<open>C arithmetic\<close>

text \<open>
  Division and remainder of C truncate towards zero. \<open>to_int32\<close> is the conversion of an
  integer to the 32-bit \<open>int\<close> (two's complement, as gcc and clang define it for a value
  out of range); the model also uses it for the result of an \<open>int\<close> addition or
  multiplication that overflows, which C leaves undefined. No theorem below depends on
  the value the model gives to such an overflow.
\<close>

definition c_div :: "int \<Rightarrow> int \<Rightarrow> int" where
  "c_div a b = sgn a * sgn b * (\<bar>a\<bar> div \<bar>b\<bar>)"

definition c_mod :: "int \<Rightarrow> int \<Rightarrow> int" where
  "c_mod a b = a - b * c_div a b"

definition to_int32 :: "int \<Rightarrow> int" where
  "to_int32 x = (x + 2147483648) mod 4294967296 - 2147483648"

subsection \<open>The min-heap of free slots\<close>

text \<open>\<open>heapArr\<close> has \<open>MAX_SLOTS + 1\<close> cells and is used from index 1.\<close>

record heap =
  heapArr :: "int list"
  heapSize :: nat

definition heapSwap :: "nat \<Rightarrow> nat \<Rightarrow> heap \<Rightarrow> heap" where
  "heapSwap i j h =
     (let t = heapArr h ! i;
          h1 = h\<lparr>heapArr := (heapArr h)[i := heapArr h ! j]\<rparr>
      in h1\<lparr>heapArr := (heapArr h1)[j := t]\<rparr>)"

text \<open>The \<open>while (i > 1)\<close> loop of \<open>heapInsert\<close>.\<close>

function heapInsert_loop :: "nat \<Rightarrow> heap \<Rightarrow> heap" where
  "heapInsert_loop i h =
     (if i > 1 then
        (if heapArr h ! (i div 2) \<le> heapArr h ! i then h
         else heapInsert_loop (i div 2) (heapSwap (i div 2) i h))
      else h)"
  by pat_completeness auto
termination
  by (relation "measure (\<lambda>(i, h). i)") auto

definition heapInsert :: "int \<Rightarrow> heap \<Rightarrow> heap" where
  "heapInsert val h =
     (if heapSize h \<ge> MAX_SLOTS then h
      else let h1 = h\<lparr>heapSize := heapSize h + 1\<rparr>;
               h2 = h1\<lparr>heapArr := (heapArr h1)[heapSize h1 := val]\<rparr>
           in heapInsert_loop (heapSize h2) h2)"

text \<open>
  One round of the \<open>while (1)\<close> loop of \<open>heapRemoveMin\<close> computes \<open>smallest\<close> from
  \<open>i\<close>, \<open>l = 2 * i\<close> and \<open>r = l + 1\<close>.
\<close>

definition smallest_of :: "nat \<Rightarrow> heap \<Rightarrow> nat" where
  "smallest_of i h =
     (let l = 2 * i; r = l + 1; smallest = i;
          smallest = (if l \<le> heapSize h \<and> heapArr h ! l < heapArr h ! smallest then l else smallest);
          smallest = (if r \<le> heapSize h \<and> heapArr h ! r < heapArr h ! smallest then r else smallest)
      in smallest)"

function heapRemoveMin_loop :: "nat \<Rightarrow> heap \<Rightarrow> heap" where
  "heapRemoveMin_loop i h =
     (if smallest_of i h = i then h
      else heapRemoveMin_loop (smallest_of i h) (heapSwap i (smallest_of i h) h))"
  by pat_completeness auto
termination
  by (relation "measure (\<lambda>(i, h). Suc (heapSize h) - i)")
     (auto simp: smallest_of_def heapSwap_def Let_def split: if_splits)

definition heapRemoveMin :: "heap \<Rightarrow> int \<times> heap" where
  "heapRemoveMin h =
     (if heapSize h = 0 then (- 1, h)
      else let ret = heapArr h ! 1;
               h1 = h\<lparr>heapArr := (heapArr h)[1 := heapArr h ! heapSize h]\<rparr>;
               h2 = h1\<lparr>heapSize := heapSize h1 - 1\<rparr>
           in (ret, heapRemoveMin_loop 1 h2))"

subsection \<open>The circular waiting queue\<close>

record waitq =
  waitQ :: "int list"
  waitFront :: nat
  waitRear :: int
  waitCount :: nat

text \<open>\<open>enqueueWait\<close> returns 1 (\<open>True\<close>) when the car was stored and 0 when the queue is full.\<close>

definition enqueueWait :: "int \<Rightarrow> waitq \<Rightarrow> bool \<times> waitq" where
  "enqueueWait c q =
     (if waitCount q = WAIT_CAP then (False, q)
      else let q1 = q\<lparr>waitRear := c_mod (waitRear q + 1) (int WAIT_CAP)\<rparr>;
               q2 = q1\<lparr>waitQ := (waitQ q1)[nat (waitRear q1) := c]\<rparr>;
               q3 = (if waitCount q2 = 0 then q2\<lparr>waitFront := nat (waitRear q2)\<rparr> else q2)
           in (True, q3\<lparr>waitCount := waitCount q3 + 1\<rparr>))"

definition dequeueWait :: "waitq \<Rightarrow> int \<times> waitq" where
  "dequeueWait q =
     (if waitCount q = 0 then (- 1, q)
      else let c = waitQ q ! waitFront q;
               q1 = q\<lparr>waitFront := (waitFront q + 1) mod WAIT_CAP\<rparr>;
               q2 = q1\<lparr>waitCount := waitCount q1 - 1\<rparr>;
               q3 = (if waitCount q2 = 0 then q2\<lparr>waitFront := 0, waitRear := - 1\<rparr> else q2)
           in (c, q3))"

subsection \<open>The parking tables, the history list and the revenue\<close>

text \<open>
  A \<open>Node\<close> of the history list; the list itself is the chain of \<open>next\<close> pointers from
  \<open>history\<close>, so its head is the newest node. Times are \<open>time_t\<close> values in seconds.
\<close>

record node =
  ncar :: int
  nslot :: int
  entryTime :: int
  exitTime :: int

record state =
  heap :: heap
  waitq :: waitq
  slotOfCar :: "int list"
  entryTimeOfCar :: "int list"
  passUser :: "int list"
  slotToCar :: "int list"
  history :: "node list"
  totalRevenue :: int

text \<open>
  \<open>addHistoryNode\<close> returns without a change when \<open>malloc\<close> gives no node
  (\<open>alloc = False\<close>).
\<close>

definition addHistoryNode :: "bool \<Rightarrow> int \<Rightarrow> int \<Rightarrow> int \<Rightarrow> int \<Rightarrow> state \<Rightarrow> state" where
  "addHistoryNode alloc car slot entry exitT s =
     (if \<not> alloc then s
      else s\<lparr>history := \<lparr>ncar = car, nslot = slot, entryTime = entry, exitTime = exitT\<rparr> # history s\<rparr>)"

text \<open>
  The variables as the C start-up leaves them: zero, but for \<open>waitRear = -1\<close>.
\<close>

definition zero_state :: state where
  "zero_state =
     \<lparr>heap = \<lparr>heapArr = replicate (MAX_SLOTS + 1) 0, heapSize = 0\<rparr>,
      waitq = \<lparr>waitQ = replicate WAIT_CAP 0, waitFront = 0, waitRear = - 1, waitCount = 0\<rparr>,
      slotOfCar = replicate MAX_CARS 0,
      entryTimeOfCar = replicate MAX_CARS 0,
      passUser = replicate MAX_CARS 0,
      slotToCar = replicate (MAX_SLOTS + 1) 0,
      history = [],
      totalRevenue = 0\<rparr>"

text \<open>Each \<open>for\<close> loop is a \<open>fold\<close> of its body over the values of its index.\<close>

definition initSystem :: "state \<Rightarrow> state" where
  "initSystem s =
     (let s1 = s\<lparr>heap := (heap s)\<lparr>heapSize := 0\<rparr>\<rparr>;
          s2 = fold (\<lambda>i s. s\<lparr>heap := heapInsert (int i) (heap s)\<rparr>) [1..<Suc MAX_SLOTS] s1;
          s3 = fold (\<lambda>i s. s\<lparr>slotOfCar := (slotOfCar s)[i := - 1],
                              entryTimeOfCar := (entryTimeOfCar s)[i := 0],
                              passUser := (passUser s)[i := 0]\<rparr>) [0..<MAX_CARS] s2;
          s4 = fold (\<lambda>i s. s\<lparr>slotToCar := (slotToCar s)[i := - 1]\<rparr>) [0..<Suc MAX_SLOTS] s3;
          s5 = s4\<lparr>waitq := (waitq s4)\<lparr>waitFront := 0, waitRear := - 1, waitCount := 0\<rparr>\<rparr>;
          s6 = s5\<lparr>totalRevenue := 0\<rparr>
      in s6\<lparr>history := []\<rparr>)"

definition emergencyMode :: "state \<Rightarrow> state" where
  "emergencyMode s =
     (let s1 = fold (\<lambda>c s. s\<lparr>slotOfCar := (slotOfCar s)[c := - 1],
                              entryTimeOfCar := (entryTimeOfCar s)[c := 0]\<rparr>) [0..<MAX_CARS] s;
          s2 = fold (\<lambda>i s. s\<lparr>slotToCar := (slotToCar s)[i := - 1]\<rparr>) [1..<Suc MAX_SLOTS] s1;
          s3 = s2\<lparr>heap := (heap s2)\<lparr>heapSize := 0\<rparr>\<rparr>;
          s4 = fold (\<lambda>i s. s\<lparr>heap := heapInsert (int i) (heap s)\<rparr>) [1..<Suc MAX_SLOTS] s3
      in s4\<lparr>waitq := (waitq s4)\<lparr>waitFront := 0, waitRear := - 1, waitCount := 0\<rparr>\<rparr>)"

datatype pass_result = Pass_invalid | Pass_registered

definition addMonthlyPass :: "int \<Rightarrow> state \<Rightarrow> pass_result \<times> state" where
  "addMonthlyPass car s =
     (if car < 0 \<or> car \<ge> int MAX_CARS then (Pass_invalid, s)
      else (Pass_registered, s\<lparr>passUser := (passUser s)[nat car := 1]\<rparr>))"

subsection \<open>Entry\<close>

text \<open>
  What \<open>vehicleEntry\<close> reports. \<open>canEnter\<close> prints the first three refusals itself and
  returns 0; the model returns the refusal, and \<open>None\<close> where the source returns 1.
\<close>

datatype entry_result =
    Entry_invalid_input
  | Entry_invalid_id
  | Entry_duplicate_parked
  | Entry_duplicate_waiting
  | Entry_full
  | Entry_unable_to_join
  | Entry_waiting nat
  | Entry_parked int int

definition canEnter :: "int \<Rightarrow> state \<Rightarrow> entry_result option" where
  "canEnter car s =
     (if car < 0 \<or> car \<ge> int MAX_CARS then Some Entry_invalid_id
      else if slotOfCar s ! nat car \<ge> 1 then Some Entry_duplicate_parked
      else if slotOfCar s ! nat car = - 2 then Some Entry_duplicate_waiting
      else None)"

definition vehicleEntry :: "int option \<Rightarrow> int \<Rightarrow> bool \<Rightarrow> state \<Rightarrow> entry_result \<times> state" where
  "vehicleEntry inp now alloc s =
     (case inp of
        None \<Rightarrow> (Entry_invalid_input, s)
      | Some car \<Rightarrow>
          (case canEnter car s of
             Some refusal \<Rightarrow> (refusal, s)
           | None \<Rightarrow>
               (let (slot, h) = heapRemoveMin (heap s);
                    s1 = s\<lparr>heap := h\<rparr>
                in if slot = - 1 then
                     (if waitCount (waitq s1) = WAIT_CAP then (Entry_full, s1)
                      else let (ok, q) = enqueueWait car (waitq s1);
                               s2 = s1\<lparr>waitq := q\<rparr>
                           in if \<not> ok then (Entry_unable_to_join, s2)
                              else let s3 = s2\<lparr>slotOfCar := (slotOfCar s2)[nat car := - 2]\<rparr>
                                   in (Entry_waiting (waitCount (waitq s3)), s3))
                   else
                     (let s2 = s1\<lparr>slotOfCar := (slotOfCar s1)[nat car := slot]\<rparr>;
                          s3 = s2\<lparr>entryTimeOfCar := (entryTimeOfCar s2)[nat car := now]\<rparr>;
                          s4 = s3\<lparr>slotToCar := (slotToCar s3)[nat slot := car]\<rparr>
                      in (Entry_parked slot now, addHistoryNode alloc car slot now 0 s4)))))"

subsection \<open>Exit\<close>

text \<open>
  \<open>difftime\<close> returns the difference of two times as a \<open>double\<close>. A \<open>double\<close> has 53
  significant bits: it holds an integer below \<open>2 ^ 53\<close> in size as it is, and a larger one
  rounded to the nearest multiple of \<open>2 ^ e\<close>, where \<open>e\<close> is the number of bits the integer
  has beyond 53, and to the even one of two multiples equally near. \<open>to_double\<close> is this
  rounding, with the \<open>double\<close> that results written as the integer it is.
\<close>

definition to_double :: "int \<Rightarrow> int" where
  "to_double x =
     (let a = \<bar>x\<bar>
      in if a < 2 ^ 53 then x
         else let e = nat (bitlen a) - 53;
                  q = a div 2 ^ e;
                  r = a mod 2 ^ e;
                  q = (if 2 ^ (e - 1) < r \<or> (r = 2 ^ (e - 1) \<and> odd q) then q + 1 else q)
              in sgn x * (q * 2 ^ e))"

text \<open>
  The fee of lines 281 to 289. \<open>diff\<close> is the \<open>double\<close> that \<open>difftime\<close> returns, set to 0
  when negative, and \<open>secs\<close> its conversion to \<open>long\<close> (64 bits), which keeps the value of a
  \<open>double\<close> that is an integer below \<open>2 ^ 63\<close>; C defines no result of the conversion, nor
  of the sum with 3599, beyond that, and there the model goes on with the integers.
  \<open>charged_hours\<close> and \<open>fee\<close> are \<open>int\<close>s, and the hours are converted from \<open>long\<close> to
  \<open>int\<close>.
\<close>

definition exit_fee :: "int \<Rightarrow> int \<Rightarrow> int \<Rightarrow> int" where
  "exit_fee pass now entry =
     (let diff = to_double (now - entry);
          diff = (if diff < 0 then 0 else diff);
          secs = diff;
          charged_hours = to_int32 (c_div (secs + 3599) 3600);
          charged_hours = (if charged_hours < 0 then 0 else charged_hours)
      in if pass \<noteq> 0 then 0 else to_int32 (charged_hours * FEE_PER_HOUR))"

text \<open>The loop of lines 300 to 304: the first node that matches and is open gets the exit time.\<close>

fun close_history :: "int \<Rightarrow> int \<Rightarrow> int \<Rightarrow> node list \<Rightarrow> node list" where
  "close_history car slot now [] = []"
| "close_history car slot now (t # ts) =
     (if ncar t = car \<and> nslot t = slot \<and> exitTime t = 0 then t\<lparr>exitTime := now\<rparr> # ts
      else t # close_history car slot now ts)"

text \<open>
  Lines 278 to 309: the fee, the revenue, the history node, the tables, and the slot back
  into the heap. The result is the slot and the fee, with the state at line 310. The
  hours, minutes and seconds of the stay are only printed and are left out.
\<close>

definition release_slot :: "int \<Rightarrow> int \<Rightarrow> state \<Rightarrow> (int \<times> int) \<times> state" where
  "release_slot car now s =
     (let slot = slotOfCar s ! nat car;
          entry = entryTimeOfCar s ! nat car;
          fee = exit_fee (passUser s ! nat car) now entry;
          s1 = s\<lparr>totalRevenue := to_int32 (totalRevenue s + fee)\<rparr>;
          s2 = s1\<lparr>history := close_history car slot now (history s1)\<rparr>;
          s3 = s2\<lparr>slotOfCar := (slotOfCar s2)[nat car := - 1]\<rparr>;
          s4 = s3\<lparr>entryTimeOfCar := (entryTimeOfCar s3)[nat car := 0]\<rparr>;
          s5 = s4\<lparr>slotToCar := (slotToCar s4)[nat slot := - 1]\<rparr>
      in ((slot, fee), s5\<lparr>heap := heapInsert slot (heap s5)\<rparr>))"

text \<open>
  Lines 311 to 327: the slot goes to the next waiting car. The result is what the source
  prints: the slot and the car of an allocation, or nothing.
\<close>

definition promote_waiting :: "int \<Rightarrow> bool \<Rightarrow> state \<Rightarrow> (int \<times> int) option \<times> state" where
  "promote_waiting now2 alloc s =
     (if waitCount (waitq s) > 0 then
        (let (nxt, q) = dequeueWait (waitq s);
             s1 = s\<lparr>waitq := q\<rparr>
         in if nxt \<ge> 0 \<and> nxt < int MAX_CARS then
              (let (newSlot, h) = heapRemoveMin (heap s1);
                   s2 = s1\<lparr>heap := h\<rparr>
               in if newSlot = - 1 then (None, s2\<lparr>waitq := snd (enqueueWait nxt (waitq s2))\<rparr>)
                  else
                    (let s3 = s2\<lparr>slotOfCar := (slotOfCar s2)[nat nxt := newSlot]\<rparr>;
                         s4 = s3\<lparr>entryTimeOfCar := (entryTimeOfCar s3)[nat nxt := now2]\<rparr>;
                         s5 = s4\<lparr>slotToCar := (slotToCar s4)[nat newSlot := nxt]\<rparr>
                     in (Some (newSlot, nxt), addHistoryNode alloc nxt newSlot now2 0 s5)))
            else (None, s1))
      else (None, s))"

text \<open>
  Lines 268 to 273: the queue is emptied into \<open>tmp\<close> but for the leaving car, and filled
  again from \<open>tmp\<close>. \<open>tmp\<close> is the list of the cells written so far (\<open>idx\<close> is its length).
\<close>

fun drain_queue :: "nat \<Rightarrow> int \<Rightarrow> state \<Rightarrow> int list \<Rightarrow> bool \<Rightarrow> state \<times> int list \<times> bool" where
  "drain_queue 0 car s tmp removed = (s, tmp, removed)"
| "drain_queue (Suc n) car s tmp removed =
     (let (w, q) = dequeueWait (waitq s);
          s1 = s\<lparr>waitq := q\<rparr>
      in if w = car then drain_queue n car (s1\<lparr>slotOfCar := (slotOfCar s1)[nat w := - 1]\<rparr>) tmp True
         else drain_queue n car s1 (tmp @ [w]) removed)"

definition refill_queue :: "int list \<Rightarrow> state \<Rightarrow> state" where
  "refill_queue tmp s = fold (\<lambda>w s. s\<lparr>waitq := snd (enqueueWait w (waitq s))\<rparr>) tmp s"

datatype exit_result =
    Exit_invalid_input
  | Exit_invalid_id
  | Exit_not_parked
  | Exit_removed_from_waiting
  | Exit_not_found_in_waiting
  | Exited int int "(int \<times> int) option"

definition vehicleExit :: "int option \<Rightarrow> int \<Rightarrow> int \<Rightarrow> bool \<Rightarrow> state \<Rightarrow> exit_result \<times> state" where
  "vehicleExit inp now now2 alloc s =
     (case inp of
        None \<Rightarrow> (Exit_invalid_input, s)
      | Some car \<Rightarrow>
          if car < 0 \<or> car \<ge> int MAX_CARS then (Exit_invalid_id, s)
          else if slotOfCar s ! nat car = - 1 then (Exit_not_parked, s)
          else if slotOfCar s ! nat car = - 2 then
            (let (s1, tmp, removed) = drain_queue (waitCount (waitq s)) car s [] False;
                 s2 = refill_queue tmp s1
             in (if removed then Exit_removed_from_waiting else Exit_not_found_in_waiting, s2))
          else
            (let ((slot, fee), s1) = release_slot car now s;
                 (promoted, s2) = promote_waiting now2 alloc s1
             in (Exited slot fee promoted, s2)))"

subsection \<open>The menu loop\<close>

text \<open>
  One round of the loop of \<open>main\<close>, with what it reads from the environment. \<open>Query\<close>
  stands for the choices that only read the state and print (the history, the slot map,
  a search, the revenue, the parked cars, the queue, the free slots), for a choice that
  is no number of the menu, and for an emergency that is not confirmed. The passes that
  \<open>main\<close> registers before the loop are \<open>Add_pass\<close> commands.
\<close>

datatype command =
    Entry "int option" int bool
  | Exit "int option" int int bool
  | Add_pass int
  | Emergency
  | Query

fun step :: "command \<Rightarrow> state \<Rightarrow> state" where
  "step (Entry inp now alloc) s = snd (vehicleEntry inp now alloc s)"
| "step (Exit inp now now2 alloc) s = snd (vehicleExit inp now now2 alloc s)"
| "step (Add_pass car) s = snd (addMonthlyPass car s)"
| "step Emergency s = emergencyMode s"
| "step Query s = s"

definition run :: "command list \<Rightarrow> state \<Rightarrow> state" where
  "run cs s = fold step cs s"

inductive reachable :: "state \<Rightarrow> bool" where
  reachable_init: "reachable (initSystem zero_state)"
| reachable_step: "reachable s \<Longrightarrow> reachable (step c s)"

subsection \<open>What the heap and the queue hold\<close>

definition heap_list :: "heap \<Rightarrow> int list" where
  "heap_list h = map (\<lambda>i. heapArr h ! i) [1..<Suc (heapSize h)]"

definition heap_order :: "int list \<Rightarrow> nat \<Rightarrow> bool" where
  "heap_order a n = (\<forall>i. 2 \<le> i \<and> i \<le> n \<longrightarrow> a ! (i div 2) \<le> a ! i)"

definition up_ok :: "int list \<Rightarrow> nat \<Rightarrow> nat \<Rightarrow> bool" where
  "up_ok a n i = ((\<forall>j. 2 \<le> j \<and> j \<le> n \<and> j \<noteq> i \<longrightarrow> a ! (j div 2) \<le> a ! j) \<and>
                  (\<forall>j. 2 \<le> j \<and> j \<le> n \<and> j div 2 = i \<and> 2 \<le> i \<longrightarrow> a ! (i div 2) \<le> a ! j))"

definition down_ok :: "int list \<Rightarrow> nat \<Rightarrow> nat \<Rightarrow> bool" where
  "down_ok a n i = ((\<forall>j. 2 \<le> j \<and> j \<le> n \<and> j div 2 \<noteq> i \<longrightarrow> a ! (j div 2) \<le> a ! j) \<and>
                    (\<forall>j. 2 \<le> j \<and> j \<le> n \<and> j div 2 = i \<and> 2 \<le> i \<longrightarrow> a ! (i div 2) \<le> a ! j))"

definition heap_ok :: "heap \<Rightarrow> bool" where
  "heap_ok h = (length (heapArr h) = MAX_SLOTS + 1 \<and> heapSize h \<le> MAX_SLOTS \<and>
                heap_order (heapArr h) (heapSize h))"

text \<open>The waiting cars from the front of the queue to its rear.\<close>

definition queue_list :: "waitq \<Rightarrow> int list" where
  "queue_list q = map (\<lambda>k. waitQ q ! ((waitFront q + k) mod WAIT_CAP)) [0..<waitCount q]"

definition queue_ok :: "waitq \<Rightarrow> bool" where
  "queue_ok q =
     (length (waitQ q) = WAIT_CAP \<and> waitCount q \<le> WAIT_CAP \<and> waitFront q < WAIT_CAP \<and>
      (if waitCount q = 0 then waitFront q = 0 \<and> waitRear q = - 1
       else waitRear q = int ((waitFront q + waitCount q - 1) mod WAIT_CAP)))"

subsection \<open>The invariant of the reachable states\<close>

text \<open>
  The free slots according to \<open>slotToCar\<close>, and the waiting cars according to
  \<open>slotOfCar\<close>.
\<close>

definition free_slots :: "int list \<Rightarrow> int set" where
  "free_slots stc = {v. 1 \<le> v \<and> v \<le> int MAX_SLOTS \<and> stc ! nat v = - 1}"

definition waiting_cars :: "int list \<Rightarrow> int set" where
  "waiting_cars soc = {c. 0 \<le> c \<and> c < int MAX_CARS \<and> soc ! nat c = - 2}"

text \<open>
  The two tables mirror each other: the occupant of a slot is a car parked in that slot,
  and a car is absent (\<open>-1\<close>), waiting (\<open>-2\<close>) or in a slot that names it.
\<close>

definition occupancy_ok :: "int list \<Rightarrow> int list \<Rightarrow> bool" where
  "occupancy_ok soc stc =
     (length soc = MAX_CARS \<and> length stc = MAX_SLOTS + 1 \<and>
      (\<forall>v. 1 \<le> v \<and> v \<le> MAX_SLOTS \<longrightarrow>
           stc ! v = - 1 \<or>
           (0 \<le> stc ! v \<and> stc ! v < int MAX_CARS \<and> soc ! nat (stc ! v) = int v)) \<and>
      (\<forall>c. c < MAX_CARS \<longrightarrow>
           soc ! c = - 1 \<or> soc ! c = - 2 \<or>
           (1 \<le> soc ! c \<and> soc ! c \<le> int MAX_SLOTS \<and> stc ! nat (soc ! c) = int c)))"

text \<open>
  \<open>core_inv\<close> holds at every line between two commands of the menu; \<open>sys_inv\<close> adds
  what holds when a command is done: cars wait only while no slot is free.
\<close>

definition core_inv :: "state \<Rightarrow> bool" where
  "core_inv s =
     (occupancy_ok (slotOfCar s) (slotToCar s) \<and>
      length (entryTimeOfCar s) = MAX_CARS \<and> length (passUser s) = MAX_CARS \<and>
      heap_ok (heap s) \<and> distinct (heap_list (heap s)) \<and>
      set (heap_list (heap s)) = free_slots (slotToCar s) \<and>
      queue_ok (waitq s) \<and> distinct (queue_list (waitq s)) \<and>
      set (queue_list (waitq s)) = waiting_cars (slotOfCar s))"

definition sys_inv :: "state \<Rightarrow> bool" where
  "sys_inv s =
     (occupancy_ok (slotOfCar s) (slotToCar s) \<and>
      length (entryTimeOfCar s) = MAX_CARS \<and> length (passUser s) = MAX_CARS \<and>
      heap_ok (heap s) \<and> distinct (heap_list (heap s)) \<and>
      set (heap_list (heap s)) = free_slots (slotToCar s) \<and>
      queue_ok (waitq s) \<and> distinct (queue_list (waitq s)) \<and>
      set (queue_list (waitq s)) = waiting_cars (slotOfCar s) \<and>
      (0 < waitCount (waitq s) \<longrightarrow> heapSize (heap s) = 0))"

text \<open>Every array has the length of its declaration.\<close>

definition arrays_ok :: "state \<Rightarrow> bool" where
  "arrays_ok s =
     (length (heapArr (heap s)) = MAX_SLOTS + 1 \<and> length (waitQ (waitq s)) = WAIT_CAP \<and>
      length (slotOfCar s) = MAX_CARS \<and> length (entryTimeOfCar s) = MAX_CARS \<and>
      length (passUser s) = MAX_CARS \<and> length (slotToCar s) = MAX_SLOTS + 1)"

subsection \<open>The fee in the words of the specification\<close>

text \<open>
  The specification's fee, to compare \<open>exit_fee\<close> with: nothing for the holder of a pass,
  and otherwise \<open>FEE_PER_HOUR\<close> for every hour begun, the elapsed time being
  \<open>now - entry\<close> seconds, or 0 when that is negative.
\<close>

definition spec_fee :: "int \<Rightarrow> int \<Rightarrow> int \<Rightarrow> int" where
  "spec_fee pass now entry =
     (if pass \<noteq> 0 then 0
      else \<lceil>real_of_int (max 0 (now - entry)) / 3600\<rceil> * FEE_PER_HOUR)"

text \<open>The values of the 32-bit \<open>int\<close>.\<close>

definition int32_range :: "int \<Rightarrow> bool" where
  "int32_range x = (- 2147483648 \<le> x \<and> x \<le> 2147483647)"

subsection \<open>Some runs of the program\<close>

text \<open>
  The state after \<open>initSystem\<close>, and the states after the cars 0, 1, 2, \<open>\<dots>\<close> have asked
  to enter at time 1000: one car parked, the ten slots taken, two cars waiting behind
  them, and the ten slots and the ten places of the queue taken. In \<open>after_exit\<close> car 3
  has then left the lot with two cars waiting, at time 4601.
\<close>

definition fresh :: state where
  "fresh = initSystem zero_state"

definition arrivals :: "nat \<Rightarrow> command list" where
  "arrivals n = map (\<lambda>i. Entry (Some (int i)) 1000 True) [0..<n]"

definition one_parked :: state where
  "one_parked = run (arrivals 1) fresh"

definition lot_full :: state where
  "lot_full = run (arrivals 10) fresh"

definition two_waiting :: state where
  "two_waiting = run (arrivals 12) fresh"

definition all_taken :: state where
  "all_taken = run (arrivals 20) fresh"

definition after_exit :: state where
  "after_exit = run [Exit (Some 3) 4601 4700 True] two_waiting"

section \<open>The heap\<close>

declare heapInsert_loop.simps [simp del] heapRemoveMin_loop.simps [simp del]

lemma heapSwap_simps [simp]:
  "heapSize (heapSwap i j h) = heapSize h"
  "heapArr (heapSwap i j h) = (heapArr h)[i := heapArr h ! j, j := heapArr h ! i]"
  by (simp_all add: heapSwap_def Let_def)

lemma heap_list_alt:
  "heapSize h < length (heapArr h) \<Longrightarrow> heap_list h = drop 1 (take (Suc (heapSize h)) (heapArr h))"
  unfolding heap_list_def by (rule nth_equalityI) (auto simp del: upt_Suc)

lemma mset_heap_list_swap:
  assumes "heapSize h < length (heapArr h)" "1 \<le> i" "i \<le> heapSize h" "1 \<le> j" "j \<le> heapSize h"
  shows "mset (heap_list (heapSwap i j h)) = mset (heap_list h)"
proof -
  let ?a = "heapArr h" and ?n = "heapSize h"
  define t where "t = take (Suc ?n) ?a"
  have len: "i < length t" "j < length t" "0 < length t" using assms by (auto simp: t_def)
  have tn: "t ! i = ?a ! i" "t ! j = ?a ! j" using assms by (auto simp: t_def)
  have sw: "take (Suc ?n) ((heapArr h)[i := ?a ! j, j := ?a ! i]) = t[i := t ! j, j := t ! i]"
    unfolding tn by (simp add: take_update_swap t_def)
  have m: "mset (t[i := t ! j, j := t ! i]) = mset t"
    using len mset_swap[of j t i] by simp
  have z: "(t[i := t ! j, j := t ! i]) ! 0 = t ! 0"
    using assms by simp
  have d: "\<And>xs::int list. xs \<noteq> [] \<Longrightarrow> mset (drop 1 xs) = mset xs - {#xs ! 0#}"
    by (case_tac xs) auto
  have "mset (drop 1 (t[i := t ! j, j := t ! i])) = mset (drop 1 t)"
    using d[of t] d[of "t[i := t ! j, j := t ! i]"] m z len by auto
  then show ?thesis using assms by (simp add: heap_list_alt sw) (simp add: t_def)
qed

lemma up_ok_step:
  assumes u: "up_ok a n i" and i: "1 < i" "i \<le> n" "n < length a"
    and lt: "\<not> a ! (i div 2) \<le> a ! i"
  shows "up_ok (a[i div 2 := a ! i, i := a ! (i div 2)]) n (i div 2)"
proof -
  define p where "p = i div 2"
  define b where "b = a[p := a ! i, i := a ! p]"
  have p: "1 \<le> p" "p < i" using i by (auto simp: p_def)
  have bi: "b ! i = a ! p" and bp: "b ! p = a ! i"
    and bo: "\<And>k. k \<noteq> i \<Longrightarrow> k \<noteq> p \<Longrightarrow> b ! k = a ! k"
    using i p by (auto simp: b_def)
  have u1: "\<And>j. 2 \<le> j \<Longrightarrow> j \<le> n \<Longrightarrow> j \<noteq> i \<Longrightarrow> a ! (j div 2) \<le> a ! j"
    using u by (auto simp: up_ok_def)
  have u2: "\<And>j. 2 \<le> j \<Longrightarrow> j \<le> n \<Longrightarrow> j div 2 = i \<Longrightarrow> a ! p \<le> a ! j"
    using u i by (auto simp: up_ok_def p_def)
  have lt': "a ! i < a ! p" using lt by (simp add: p_def)
  have g1: "b ! (j div 2) \<le> b ! j" if j: "2 \<le> j" "j \<le> n" "j \<noteq> p" for j
  proof (cases "j = i")
    case True
    then show ?thesis using bi bp lt' by (simp add: p_def[symmetric])
  next
    case False
    then have bj: "b ! j = a ! j" using bo j by simp
    consider "j div 2 = p" | "j div 2 = i" | "j div 2 \<noteq> p" "j div 2 \<noteq> i" by blast
    then show ?thesis
    proof cases
      case 1
      then show ?thesis using bj bp lt' u1[OF j(1,2) False] by simp
    next
      case 2
      then show ?thesis using bj bi u2[OF j(1,2)] by simp
    next
      case 3
      then show ?thesis using bj bo[of "j div 2"] u1[OF j(1,2) False] by simp
    qed
  qed
  have g2: "b ! (p div 2) \<le> b ! j" if j: "2 \<le> j" "j \<le> n" "j div 2 = p" "2 \<le> p" for j
  proof -
    have pp: "p div 2 \<noteq> p" "p div 2 \<noteq> i" using p j by auto
    have up: "a ! (p div 2) \<le> a ! p" using u1[of p] j p i by auto
    show ?thesis
    proof (cases "j = i")
      case True
      then show ?thesis using bi bo[OF pp(2) pp(1)] up by simp
    next
      case False
      have "j \<noteq> p" using j by auto
      then have "b ! j = a ! j" using bo False by simp
      moreover have "a ! p \<le> a ! j" using u1[OF j(1,2) False] j by simp
      ultimately show ?thesis using bo[OF pp(2) pp(1)] up by simp
    qed
  qed
  show ?thesis unfolding up_ok_def b_def[symmetric] p_def[symmetric]
    using g1 g2 by blast
qed

lemma up_ok_done:
  assumes "up_ok a n i" "i \<le> 1 \<or> a ! (i div 2) \<le> a ! i"
  shows "heap_order a n"
  unfolding heap_order_def
proof (intro allI impI)
  fix j assume j: "2 \<le> j \<and> j \<le> n"
  show "a ! (j div 2) \<le> a ! j"
  proof (cases "j = i")
    case True
    then show ?thesis using assms j by auto
  next
    case False
    then show ?thesis using assms(1) j by (auto simp: up_ok_def)
  qed
qed

lemma heapInsert_loop_correct:
  "up_ok (heapArr h) (heapSize h) i \<Longrightarrow> i \<le> heapSize h \<Longrightarrow> heapSize h < length (heapArr h) \<Longrightarrow>
   heap_order (heapArr (heapInsert_loop i h)) (heapSize h) \<and>
   heapSize (heapInsert_loop i h) = heapSize h \<and>
   length (heapArr (heapInsert_loop i h)) = length (heapArr h) \<and>
   mset (heap_list (heapInsert_loop i h)) = mset (heap_list h)"
proof (induction i h rule: heapInsert_loop.induct)
  case (1 i h)
  show ?case
  proof (cases "1 < i \<and> \<not> heapArr h ! (i div 2) \<le> heapArr h ! i")
    case False
    then have "heapInsert_loop i h = h" by (subst heapInsert_loop.simps) auto
    moreover have "heap_order (heapArr h) (heapSize h)"
      using up_ok_done[OF "1.prems"(1)] False by auto
    ultimately show ?thesis by simp
  next
    case True
    let ?h = "heapSwap (i div 2) i h"
    have eq: "heapInsert_loop i h = heapInsert_loop (i div 2) ?h"
      using True by (subst heapInsert_loop.simps) simp
    have u: "up_ok (heapArr ?h) (heapSize ?h) (i div 2)"
      using up_ok_step[OF "1.prems"(1)] True "1.prems" by simp
    have ih: "heap_order (heapArr (heapInsert_loop (i div 2) ?h)) (heapSize ?h) \<and>
      heapSize (heapInsert_loop (i div 2) ?h) = heapSize ?h \<and>
      length (heapArr (heapInsert_loop (i div 2) ?h)) = length (heapArr ?h) \<and>
      mset (heap_list (heapInsert_loop (i div 2) ?h)) = mset (heap_list ?h)"
      using "1.IH"[OF _ _ u] True "1.prems" by simp
    have "1 \<le> i div 2" "i div 2 \<le> heapSize h" using True "1.prems" by linarith+
    then have "mset (heap_list ?h) = mset (heap_list h)"
      using mset_heap_list_swap[of h "i div 2" i] True "1.prems" by simp
    then show ?thesis using ih unfolding eq by simp
  qed
qed


lemma heap_list_insert:
  assumes "Suc (heapSize h) < length (heapArr h)"
  shows "heap_list (h\<lparr>heapSize := Suc (heapSize h), heapArr := (heapArr h)[Suc (heapSize h) := v]\<rparr>)
         = heap_list h @ [v]"
  using assms by (auto simp: heap_list_def)

lemma up_ok_start:
  assumes "heap_order a n" "Suc n < length a"
  shows "up_ok (a[Suc n := v]) (Suc n) (Suc n)"
  using assms unfolding up_ok_def heap_order_def
  by (auto simp: nth_list_update) 

lemma heapInsert_correct:
  assumes "heap_order (heapArr h) (heapSize h)" "heapSize h < MAX_SLOTS" "length (heapArr h) = MAX_SLOTS + 1"
  shows "heap_order (heapArr (heapInsert v h)) (heapSize (heapInsert v h))"
    and "heapSize (heapInsert v h) = Suc (heapSize h)"
    and "length (heapArr (heapInsert v h)) = length (heapArr h)"
    and "mset (heap_list (heapInsert v h)) = add_mset v (mset (heap_list h))"
proof -
  let ?h2 = "(h\<lparr>heapSize := Suc (heapSize h), heapArr := (heapArr h)[Suc (heapSize h) := v]\<rparr>)"
  have eq: "heapInsert v h = heapInsert_loop (Suc (heapSize h)) ?h2"
    using assms by (simp add: heapInsert_def Let_def)
  have u: "up_ok (heapArr ?h2) (heapSize ?h2) (Suc (heapSize h))"
    using up_ok_start[OF assms(1)] assms by simp
  have c: "heap_order (heapArr (heapInsert_loop (Suc (heapSize h)) ?h2)) (heapSize ?h2) \<and>
   heapSize (heapInsert_loop (Suc (heapSize h)) ?h2) = heapSize ?h2 \<and>
   length (heapArr (heapInsert_loop (Suc (heapSize h)) ?h2)) = length (heapArr ?h2) \<and>
   mset (heap_list (heapInsert_loop (Suc (heapSize h)) ?h2)) = mset (heap_list ?h2)"
    using heapInsert_loop_correct[OF u] assms by simp
  have hl: "heap_list ?h2 = heap_list h @ [v]"
    using heap_list_insert[of h v] assms by simp
  show "heap_order (heapArr (heapInsert v h)) (heapSize (heapInsert v h))"
    and "heapSize (heapInsert v h) = Suc (heapSize h)"
    and "length (heapArr (heapInsert v h)) = length (heapArr h)"
    and "mset (heap_list (heapInsert v h)) = add_mset v (mset (heap_list h))"
    using c hl unfolding eq by simp_all
qed

lemma smallest_of_cases:
  "smallest_of i h = i \<and>
     (2 * i \<le> heapSize h \<longrightarrow> heapArr h ! i \<le> heapArr h ! (2 * i)) \<and>
     (2 * i + 1 \<le> heapSize h \<longrightarrow> heapArr h ! i \<le> heapArr h ! (2 * i + 1))
   \<or> smallest_of i h \<noteq> i \<and> (smallest_of i h = 2 * i \<or> smallest_of i h = 2 * i + 1) \<and>
     smallest_of i h \<le> heapSize h \<and>
     heapArr h ! smallest_of i h < heapArr h ! i \<and>
     (2 * i \<le> heapSize h \<longrightarrow> heapArr h ! smallest_of i h \<le> heapArr h ! (2 * i)) \<and>
     (2 * i + 1 \<le> heapSize h \<longrightarrow> heapArr h ! smallest_of i h \<le> heapArr h ! (2 * i + 1))"
  by (cases "i = 0") (auto simp: smallest_of_def Let_def)


lemma down_ok_step:
  assumes d: "down_ok a n i" and i: "1 \<le> i" "n < length a"
    and s: "s \<noteq> i" "s = 2 * i \<or> s = 2 * i + 1" "s \<le> n" "a ! s < a ! i"
      "2 * i \<le> n \<longrightarrow> a ! s \<le> a ! (2 * i)" "2 * i + 1 \<le> n \<longrightarrow> a ! s \<le> a ! (2 * i + 1)"
  shows "down_ok (a[i := a ! s, s := a ! i]) n s"
proof -
  define b where "b = a[i := a ! s, s := a ! i]"
  have rel: "i < s" "s div 2 = i" using s i by auto
  have bi: "b ! i = a ! s" and bs: "b ! s = a ! i"
    and bo: "\<And>k. k \<noteq> i \<Longrightarrow> k \<noteq> s \<Longrightarrow> b ! k = a ! k"
    using i s rel by (auto simp: b_def)
  have d1: "\<And>j. 2 \<le> j \<Longrightarrow> j \<le> n \<Longrightarrow> j div 2 \<noteq> i \<Longrightarrow> a ! (j div 2) \<le> a ! j"
    using d by (auto simp: down_ok_def)
  have d2: "\<And>j. 2 \<le> j \<Longrightarrow> j \<le> n \<Longrightarrow> j div 2 = i \<Longrightarrow> 2 \<le> i \<Longrightarrow> a ! (i div 2) \<le> a ! j"
    using d by (auto simp: down_ok_def)
  have sib: "a ! s \<le> a ! j" if "j \<le> n" "j div 2 = i" for j
  proof -
    have "j = 2 * i \<or> j = 2 * i + 1" using that by presburger
    then show ?thesis using s that by auto
  qed
  have g1: "b ! (j div 2) \<le> b ! j" if j: "2 \<le> j" "j \<le> n" "j div 2 \<noteq> s" for j
  proof -
    consider "j = s" | "j = i" | "j \<noteq> s" "j \<noteq> i" by blast
    then show ?thesis
    proof cases
      case 1
      then show ?thesis using bi bs rel s by simp
    next
      case 2
      have q: "i div 2 \<noteq> i" "i div 2 \<noteq> s" using 2 j rel by auto
      have "a ! (i div 2) \<le> a ! s" using d2[of s] s rel 2 j by auto
      then show ?thesis using 2 bi bo[OF q] by simp
    next
      case 3
      then have bj: "b ! j = a ! j" using bo by simp
      show ?thesis
      proof (cases "j div 2 = i")
        case True
        then show ?thesis using bj bi sib[OF j(2) True] by simp
      next
        case False
        then show ?thesis using bj bo[of "j div 2"] j d1[OF j(1,2) False] by simp
      qed
    qed
  qed
  have g2: "b ! (s div 2) \<le> b ! j" if j: "2 \<le> j" "j \<le> n" "j div 2 = s" for j
  proof -
    have "j \<noteq> i" "j \<noteq> s" using j rel by auto
    then have "b ! j = a ! j" using bo by simp
    moreover have "a ! s \<le> a ! j" using d1[OF j(1,2)] j rel by auto
    ultimately show ?thesis using rel bi by simp
  qed
  show ?thesis unfolding down_ok_def b_def[symmetric]
    using g1 g2 by blast
qed

lemma down_ok_done:
  assumes "down_ok a n i"
    "2 * i \<le> n \<longrightarrow> a ! i \<le> a ! (2 * i)" "2 * i + 1 \<le> n \<longrightarrow> a ! i \<le> a ! (2 * i + 1)"
  shows "heap_order a n"
  unfolding heap_order_def
proof (intro allI impI)
  fix j assume j: "2 \<le> j \<and> j \<le> n"
  show "a ! (j div 2) \<le> a ! j"
  proof (cases "j div 2 = i")
    case True
    then have "j = 2 * i \<or> j = 2 * i + 1" by presburger
    then show ?thesis using assms j True by auto
  next
    case False
    then show ?thesis using assms(1) j by (auto simp: down_ok_def)
  qed
qed

lemma heapRemoveMin_loop_correct:
  "down_ok (heapArr h) (heapSize h) i \<Longrightarrow> 1 \<le> i \<Longrightarrow> heapSize h < length (heapArr h) \<Longrightarrow>
   heap_order (heapArr (heapRemoveMin_loop i h)) (heapSize h) \<and>
   heapSize (heapRemoveMin_loop i h) = heapSize h \<and>
   length (heapArr (heapRemoveMin_loop i h)) = length (heapArr h) \<and>
   mset (heap_list (heapRemoveMin_loop i h)) = mset (heap_list h)"
proof (induction i h rule: heapRemoveMin_loop.induct)
  case (1 i h)
  let ?s = "smallest_of i h"
  show ?case
  proof (cases "?s = i")
    case True
    then have eq: "heapRemoveMin_loop i h = h" by (subst heapRemoveMin_loop.simps) simp
    have "heap_order (heapArr h) (heapSize h)"
      using down_ok_done[OF "1.prems"(1)] smallest_of_cases[of i h] True by auto
    then show ?thesis unfolding eq by simp
  next
    case False
    let ?h = "heapSwap i ?s h"
    have eq: "heapRemoveMin_loop i h = heapRemoveMin_loop ?s ?h"
      using False by (subst heapRemoveMin_loop.simps) simp
    have sc: "?s = 2 * i \<or> ?s = 2 * i + 1" "?s \<le> heapSize h"
      "heapArr h ! ?s < heapArr h ! i"
      "2 * i \<le> heapSize h \<longrightarrow> heapArr h ! ?s \<le> heapArr h ! (2 * i)"
      "2 * i + 1 \<le> heapSize h \<longrightarrow> heapArr h ! ?s \<le> heapArr h ! (2 * i + 1)"
      using smallest_of_cases[of i h] False by auto
    have d: "down_ok (heapArr ?h) (heapSize ?h) ?s"
      using down_ok_step[OF "1.prems"(1,2,3) False sc] by simp
    have s1: "1 \<le> ?s" "i \<le> heapSize h" using sc(1,2) "1.prems"(2) by auto
    have ih: "heap_order (heapArr (heapRemoveMin_loop ?s ?h)) (heapSize ?h) \<and>
      heapSize (heapRemoveMin_loop ?s ?h) = heapSize ?h \<and>
      length (heapArr (heapRemoveMin_loop ?s ?h)) = length (heapArr ?h) \<and>
      mset (heap_list (heapRemoveMin_loop ?s ?h)) = mset (heap_list ?h)"
      using "1.IH"[OF False d s1(1)] "1.prems"(3) by simp
    have "mset (heap_list ?h) = mset (heap_list h)"
      using mset_heap_list_swap[of h i ?s] "1.prems" sc(2) s1 by simp
    then show ?thesis using ih unfolding eq by simp
  qed
qed

lemma heap_root_least:
  assumes "heap_order a n"
  shows "1 \<le> i \<Longrightarrow> i \<le> n \<Longrightarrow> a ! 1 \<le> a ! i"
proof (induction i rule: less_induct)
  case (less i)
  show ?case
  proof (cases "i = 1")
    case True
    then show ?thesis by simp
  next
    case False
    then have i2: "2 \<le> i" using less.prems by simp
    then have "a ! 1 \<le> a ! (i div 2)" using less.IH[of "i div 2"] less.prems by simp
    moreover have "a ! (i div 2) \<le> a ! i" using assms i2 less.prems by (simp add: heap_order_def)
    ultimately show ?thesis by simp
  qed
qed

lemma down_ok_start:
  assumes "heap_order a n" "1 \<le> n" "n < length a"
  shows "down_ok (a[1 := a ! n]) (n - 1) 1"
  unfolding down_ok_def
proof (intro conjI allI impI)
  fix j assume j: "2 \<le> j \<and> j \<le> n - 1 \<and> j div 2 \<noteq> 1"
  then have "j \<noteq> 1" "j div 2 \<noteq> 1" by auto
  then have "a[1 := a ! n] ! j = a ! j" "a[1 := a ! n] ! (j div 2) = a ! (j div 2)" by auto
  moreover have "a ! (j div 2) \<le> a ! j" using assms(1) j by (auto simp: heap_order_def)
  ultimately show "a[1 := a ! n] ! (j div 2) \<le> a[1 := a ! n] ! j" by simp
qed auto

lemma heap_list_remove_root:
  assumes "1 \<le> heapSize h" "heapSize h < length (heapArr h)"
  shows "mset (heap_list h) =
         add_mset (heapArr h ! 1)
           (mset (heap_list (h\<lparr>heapArr := (heapArr h)[1 := heapArr h ! heapSize h],
                               heapSize := heapSize h - 1\<rparr>)))"
proof (cases "heapSize h = 1")
  case True
  then show ?thesis by (simp add: heap_list_def)
next
  case False
  define n where "n = heapSize h"
  define a where "a = heapArr h"
  have n: "2 \<le> n" "n < length a" using False assms by (auto simp: n_def a_def)
  have u1: "[1..<Suc n] = 1 # [2..<n] @ [n]"
    using n by (simp add: upt_conv_Cons numeral_2_eq_2)
  have u2: "[Suc 0..<n] = Suc 0 # [2..<n]"
    using n by (simp add: upt_conv_Cons numeral_2_eq_2)
  have m: "map (\<lambda>i. a[1 := a ! n] ! i) [2..<n] = map (\<lambda>i. a ! i) [2..<n]"
    by (rule map_cong) auto
  have "heap_list h = a ! 1 # map (\<lambda>i. a ! i) [2..<n] @ [a ! n]"
    unfolding heap_list_def n_def[symmetric] a_def[symmetric] u1 by simp
  moreover have "heap_list (h\<lparr>heapArr := a[1 := a ! n], heapSize := n - 1\<rparr>)
      = a ! n # map (\<lambda>i. a ! i) [2..<n]"
    unfolding heap_list_def using n m by (simp add: u2)
  ultimately show ?thesis by (simp add: n_def a_def)
qed

lemma heapRemoveMin_empty: "heapSize h = 0 \<Longrightarrow> heapRemoveMin h = (- 1, h)"
  by (simp add: heapRemoveMin_def)

lemma heapRemoveMin_correct:
  assumes "heap_ok h" "0 < heapSize h"
  shows "fst (heapRemoveMin h) = heapArr h ! 1"
    and "heap_ok (snd (heapRemoveMin h))"
    and "heapSize (snd (heapRemoveMin h)) = heapSize h - 1"
    and "mset (heap_list h) = add_mset (heapArr h ! 1) (mset (heap_list (snd (heapRemoveMin h))))"
proof -
  let ?h2 = "h\<lparr>heapArr := (heapArr h)[1 := heapArr h ! heapSize h], heapSize := heapSize h - 1\<rparr>"
  have eq: "heapRemoveMin h = (heapArr h ! 1, heapRemoveMin_loop 1 ?h2)"
    using assms by (simp add: heapRemoveMin_def Let_def)
  have len: "heapSize h < length (heapArr h)" "length (heapArr h) = 11" using assms by (auto simp: heap_ok_def)
  have d: "down_ok (heapArr ?h2) (heapSize ?h2) 1"
    using down_ok_start[of "heapArr h" "heapSize h"] assms len by (simp add: heap_ok_def)
  have c: "heap_order (heapArr (heapRemoveMin_loop 1 ?h2)) (heapSize ?h2) \<and>
   heapSize (heapRemoveMin_loop 1 ?h2) = heapSize ?h2 \<and>
   length (heapArr (heapRemoveMin_loop 1 ?h2)) = length (heapArr ?h2) \<and>
   mset (heap_list (heapRemoveMin_loop 1 ?h2)) = mset (heap_list ?h2)"
    using heapRemoveMin_loop_correct[OF d] len by simp
  show "fst (heapRemoveMin h) = heapArr h ! 1" by (simp add: eq)
  show "heap_ok (snd (heapRemoveMin h))"
    using c len assms by (simp add: eq heap_ok_def)
  show "heapSize (snd (heapRemoveMin h)) = heapSize h - 1" using c by (simp add: eq)
  show "mset (heap_list h) = add_mset (heapArr h ! 1) (mset (heap_list (snd (heapRemoveMin h))))"
    using heap_list_remove_root[of h] c assms len by (simp add: eq)
qed

lemma heap_root_Min:
  assumes "heap_ok h" "0 < heapSize h"
  shows "heapArr h ! 1 = Min (set (heap_list h))"
proof -
  have le: "\<And>x. x \<in> set (heap_list h) \<Longrightarrow> heapArr h ! 1 \<le> x"
    using heap_root_least[of "heapArr h" "heapSize h"] assms
    by (auto simp: heap_list_def heap_ok_def simp del: upt_Suc)
  have mem: "heapArr h ! 1 \<in> set (heap_list h)"
    using assms by (auto simp: heap_list_def simp del: upt_Suc intro!: image_eqI[where x=1])
  show ?thesis using le mem by (intro Min_eqI[symmetric]) auto
qed

lemma heapInsert_ok:
  assumes "heap_ok h" "heapSize h < MAX_SLOTS"
  shows "heap_ok (heapInsert v h)"
    and "heapSize (heapInsert v h) = Suc (heapSize h)"
    and "mset (heap_list (heapInsert v h)) = add_mset v (mset (heap_list h))"
  using heapInsert_correct[of h v] assms by (auto simp: heap_ok_def)

lemma c_div_nonneg: "0 \<le> a \<Longrightarrow> 0 < b \<Longrightarrow> c_div a b = a div b"
  by (cases "a = 0") (auto simp: c_div_def)

lemma c_mod_nonneg: "0 \<le> a \<Longrightarrow> 0 < b \<Longrightarrow> c_mod a b = a mod b"
  by (simp add: c_mod_def c_div_nonneg minus_mult_div_eq_mod)

section \<open>The waiting queue\<close>

lemma ring_distinct: "k < n \<Longrightarrow> n < 10 \<Longrightarrow> (f + k) mod 10 \<noteq> (f + n) mod (10::nat)"
proof
  assume a: "k < n" "n < 10" "(f + k) mod 10 = (f + n) mod 10"
  have "f + k \<le> f + n" using a by simp
  then have "10 dvd (f + n) - (f + k)" using mod_eq_dvd_iff_nat[of "f + k" "f + n" 10] a(3) by simp
  then have "10 dvd n - k" by simp
  moreover have "0 < n - k" "n - k < 10" using a by auto
  ultimately show False using nat_dvd_not_less by blast
qed

lemma ring_next: "((f + 1) mod 10 + k) mod 10 = (f + Suc k) mod (10::nat)"
  by (simp add: mod_add_left_eq)

lemma enqueueWait_state:
  assumes "queue_ok q" "waitCount q < WAIT_CAP"
  shows "enqueueWait c q =
    (True, q\<lparr>waitRear := int ((waitFront q + waitCount q) mod 10),
              waitQ := (waitQ q)[(waitFront q + waitCount q) mod 10 := c],
              waitCount := Suc (waitCount q)\<rparr>)"
proof -
  define f where "f = waitFront q"
  define n where "n = waitCount q"
  have q: "n < 10" "f < 10"
    "n = 0 \<Longrightarrow> f = 0 \<and> waitRear q = - 1"
    "n \<noteq> 0 \<Longrightarrow> waitRear q = int ((f + n - 1) mod 10)"
    using assms by (auto simp: queue_ok_def f_def n_def split: if_splits)
  have r: "c_mod (waitRear q + 1) 10 = int ((f + n) mod 10)"
  proof (cases "n = 0")
    case True
    then show ?thesis using q by (simp add: c_mod_nonneg)
  next
    case False
    then obtain m where m: "n = Suc m" by (cases n) auto
    have "int ((f + m) mod 10) + 1 = int (Suc ((f + m) mod 10))" by simp
    also have "\<dots> mod 10 = int (Suc ((f + m) mod 10) mod 10)"
      by (simp only: zmod_int of_nat_numeral)
    also have "\<dots> = int ((f + n) mod 10)" by (simp add: mod_Suc_eq m)
    finally have "(int ((f + m) mod 10) + 1) mod 10 = int ((f + n) mod 10)" .
    then show ?thesis using q(4)[OF False] by (simp add: c_mod_nonneg m)
  qed
  show ?thesis
  proof (cases "n = 0")
    case True
    then have "f = 0" using q by simp
    then show ?thesis using True r
      unfolding enqueueWait_def Let_def f_def n_def by simp
  next
    case False
    then show ?thesis using r q(1)
      unfolding enqueueWait_def Let_def f_def n_def by simp
  qed
qed

lemma enqueueWait_ok:
  assumes "queue_ok q" "waitCount q < WAIT_CAP"
  shows "fst (enqueueWait c q) = True"
    and "queue_ok (snd (enqueueWait c q))"
    and "queue_list (snd (enqueueWait c q)) = queue_list q @ [c]"
    and "waitCount (snd (enqueueWait c q)) = Suc (waitCount q)"
proof -
  note st = enqueueWait_state[OF assms, of c]
  define f where "f = waitFront q"
  define n where "n = waitCount q"
  have q: "length (waitQ q) = 10" "n < 10" "f < 10"
    using assms by (auto simp: queue_ok_def f_def n_def split: if_splits)
  show "fst (enqueueWait c q) = True" by (simp add: st)
  show "waitCount (snd (enqueueWait c q)) = Suc (waitCount q)" by (simp add: st)
  show "queue_ok (snd (enqueueWait c q))"
    using assms unfolding st queue_ok_def by (simp split: if_splits)
  have old: "map (\<lambda>k. (waitQ q)[(f + n) mod 10 := c] ! ((f + k) mod 10)) [0..<n]
           = map (\<lambda>k. waitQ q ! ((f + k) mod 10)) [0..<n]"
  proof (rule map_cong[OF refl])
    fix k assume "k \<in> set [0..<n]"
    then have "(f + n) mod 10 \<noteq> (f + k) mod 10"
      using ring_distinct[of k n f] q by auto
    then show "(waitQ q)[(f + n) mod 10 := c] ! ((f + k) mod 10) = waitQ q ! ((f + k) mod 10)"
      by (rule nth_list_update_neq)
  qed
  have new: "(waitQ q)[(f + n) mod 10 := c] ! ((f + n) mod 10) = c"
    using q by simp
  show "queue_list (snd (enqueueWait c q)) = queue_list q @ [c]"
    unfolding st queue_list_def using old new
    by (simp add: f_def[symmetric] n_def[symmetric])
qed

lemma dequeueWait_state:
  assumes "0 < waitCount q"
  shows "dequeueWait q =
    (waitQ q ! waitFront q,
     if waitCount q = 1 then q\<lparr>waitFront := 0, waitRear := - 1, waitCount := 0\<rparr>
     else q\<lparr>waitFront := (waitFront q + 1) mod 10, waitCount := waitCount q - 1\<rparr>)"
  using assms unfolding dequeueWait_def Let_def by auto

lemma tl_map_upt: "tl (map g [0..<n]) = map (\<lambda>k. g (Suc k)) [0..<n - 1]"
proof (cases n)
  case 0
  then show ?thesis by simp
next
  case (Suc m)
  have "[0..<Suc m] = 0 # map Suc [0..<m]"
    by (simp only: upt_conv_Cons[of 0 "Suc m"] map_Suc_upt zero_less_Suc)
  then show ?thesis using Suc by (simp add: comp_def del: upt_Suc)
qed

lemma dequeueWait_ok:
  assumes "queue_ok q" "0 < waitCount q"
  shows "fst (dequeueWait q) = hd (queue_list q)"
    and "queue_ok (snd (dequeueWait q))"
    and "queue_list (snd (dequeueWait q)) = tl (queue_list q)"
    and "waitCount (snd (dequeueWait q)) = waitCount q - 1"
proof -
  note st = dequeueWait_state[OF assms(2)]
  define f where "f = waitFront q"
  define n where "n = waitCount q"
  have q: "length (waitQ q) = 10" "n \<le> 10" "f < 10" "0 < n"
    "waitRear q = int ((f + n - 1) mod 10)"
    using assms by (auto simp: queue_ok_def f_def n_def split: if_splits)
  have "[0..<n] = 0 # [1..<n]" using q(4) by (simp add: upt_conv_Cons)
  then have hd: "hd (queue_list q) = waitQ q ! f"
    using q(3) by (simp add: queue_list_def f_def[symmetric] n_def[symmetric])
  show "fst (dequeueWait q) = hd (queue_list q)"
    by (simp add: st hd f_def)
  show "waitCount (snd (dequeueWait q)) = waitCount q - 1"
    by (simp add: st)
  have rr: "(f + n - 1) mod 10 = ((f + 1) mod 10 + (n - 1) - 1) mod 10" if ne: "n \<noteq> 1"
  proof -
    obtain k where k: "n = Suc (Suc k)" using q(4) ne by (cases n; cases "n - 1") auto
    show ?thesis using ring_next[of f k] by (simp add: k)
  qed
  show "queue_ok (snd (dequeueWait q))"
  proof (cases "n = 1")
    case True
    then show ?thesis using q unfolding st queue_ok_def by (simp add: n_def)
  next
    case False
    then have "waitCount q \<noteq> 1" "n - 1 \<noteq> 0" using q(4) by (auto simp: n_def)
    then show ?thesis using q rr[OF False] unfolding st queue_ok_def
      by (simp add: f_def[symmetric] n_def[symmetric])
  qed
  have tl: "tl (queue_list q) = map (\<lambda>k. waitQ q ! ((f + Suc k) mod 10)) [0..<n - 1]"
    unfolding queue_list_def f_def[symmetric] n_def[symmetric] by (rule tl_map_upt)
  have res: "queue_list (snd (dequeueWait q)) = map (\<lambda>k. waitQ q ! ((f + Suc k) mod 10)) [0..<n - 1]"
  proof (cases "n = 1")
    case True
    then show ?thesis unfolding st by (simp add: queue_list_def n_def)
  next
    case False
    then have "waitCount q \<noteq> 1" by (simp add: n_def)
    then show ?thesis unfolding st queue_list_def
      by (simp add: f_def[symmetric] n_def[symmetric] ring_next del: One_nat_def)
  qed
  show "queue_list (snd (dequeueWait q)) = tl (queue_list q)"
    using res tl by simp
qed

lemma length_queue_list [simp]: "length (queue_list q) = waitCount q"
  by (simp add: queue_list_def)

lemma length_heap_list [simp]: "length (heap_list h) = heapSize h"
  by (simp add: heap_list_def)

lemma refill_queue_frame:
  "refill_queue tmp s = s\<lparr>waitq := waitq (refill_queue tmp s)\<rparr>"
proof (induction tmp arbitrary: s)
  case Nil
  then show ?case by (simp add: refill_queue_def)
next
  case (Cons w tmp)
  let ?s1 = "s\<lparr>waitq := snd (enqueueWait w (waitq s))\<rparr>"
  have eq: "refill_queue (w # tmp) s = refill_queue tmp ?s1"
    by (simp add: refill_queue_def)
  show ?case unfolding eq by (subst Cons.IH) simp
qed
                                      
lemma refill_queue_ok:
  "queue_ok (waitq s) \<Longrightarrow> waitCount (waitq s) + length tmp \<le> WAIT_CAP \<Longrightarrow>
   queue_ok (waitq (refill_queue tmp s)) \<and>
   queue_list (waitq (refill_queue tmp s)) = queue_list (waitq s) @ tmp"
proof (induction tmp arbitrary: s)
  case Nil
  then show ?case by (simp add: refill_queue_def)
next
  case (Cons w tmp)
  let ?s1 = "s\<lparr>waitq := snd (enqueueWait w (waitq s))\<rparr>"
  have lt: "waitCount (waitq s) < WAIT_CAP" using Cons.prems by simp
  note e = enqueueWait_ok[OF Cons.prems(1) lt, of w]
  have "queue_ok (waitq (refill_queue tmp ?s1)) \<and>
    queue_list (waitq (refill_queue tmp ?s1)) = queue_list (waitq ?s1) @ tmp"
    using Cons.IH[of ?s1] e Cons.prems by simp
  moreover have "refill_queue (w # tmp) s = refill_queue tmp ?s1"
    by (simp add: refill_queue_def)
  ultimately show ?case using e by simp
qed

lemma drain_queue_frame:
  "fst (drain_queue n car s tmp removed) =
   s\<lparr>waitq := waitq (fst (drain_queue n car s tmp removed)),
     slotOfCar := slotOfCar (fst (drain_queue n car s tmp removed))\<rparr>"
proof (induction n arbitrary: s tmp removed)
  case 0
  then show ?case by simp
next
  case (Suc n)
  obtain w q where d: "dequeueWait (waitq s) = (w, q)" by (cases "dequeueWait (waitq s)")
  show ?case
  proof (cases "w = car")
    case True
    let ?s1 = "s\<lparr>waitq := q, slotOfCar := (slotOfCar s)[nat w := - 1]\<rparr>"
    have eq: "drain_queue (Suc n) car s tmp removed = drain_queue n car ?s1 tmp True"
      using d True by simp
    show ?thesis unfolding eq by (subst Suc.IH) simp
  next
    case False
    let ?s1 = "s\<lparr>waitq := q\<rparr>"
    have eq: "drain_queue (Suc n) car s tmp removed = drain_queue n car ?s1 (tmp @ [w]) removed"
      using d False by simp
    show ?thesis unfolding eq by (subst Suc.IH) simp
  qed
qed

lemma drain_queue_ok:
  "queue_ok (waitq s) \<Longrightarrow> n \<le> waitCount (waitq s) \<Longrightarrow>
   (let r = drain_queue n car s tmp removed; l = queue_list (waitq s) in
    queue_ok (waitq (fst r)) \<and>
    queue_list (waitq (fst r)) = drop n l \<and>
    fst (snd r) = tmp @ filter (\<lambda>w. w \<noteq> car) (take n l) \<and>
    snd (snd r) = (removed \<or> car \<in> set (take n l)) \<and>
    slotOfCar (fst r) = (if car \<in> set (take n l) then (slotOfCar s)[nat car := - 1] else slotOfCar s))"
proof (induction n arbitrary: s tmp removed)
  case 0
  then show ?case by simp
next
  case (Suc n)
  obtain w q where d: "dequeueWait (waitq s) = (w, q)" by (cases "dequeueWait (waitq s)")
  have pos: "0 < waitCount (waitq s)" using Suc.prems by simp
  note dq = dequeueWait_ok[OF Suc.prems(1) pos, unfolded d fst_conv snd_conv]
  let ?l = "queue_list (waitq s)"
  have "length ?l \<noteq> 0" using pos by simp
  then have "?l \<noteq> []" by (simp del: length_queue_list)
  then have l: "?l = w # queue_list q"
    using dq by (cases ?l) auto
  have n: "n \<le> waitCount q" using dq Suc.prems by simp
  show ?case
  proof (cases "w = car")
    case True
    let ?s1 = "s\<lparr>waitq := q, slotOfCar := (slotOfCar s)[nat w := - 1]\<rparr>"
    have eq: "drain_queue (Suc n) car s tmp removed = drain_queue n car ?s1 tmp True"
      using d True by simp
    have ih: "let r = drain_queue n car ?s1 tmp True; l = queue_list (waitq ?s1) in
      queue_ok (waitq (fst r)) \<and>
      queue_list (waitq (fst r)) = drop n l \<and>
      fst (snd r) = tmp @ filter (\<lambda>w. w \<noteq> car) (take n l) \<and>
      snd (snd r) = (True \<or> car \<in> set (take n l)) \<and>
      slotOfCar (fst r) = (if car \<in> set (take n l) then (slotOfCar ?s1)[nat car := - 1] else slotOfCar ?s1)"
      using Suc.IH[of ?s1 tmp True] dq n by simp
    show ?thesis unfolding eq using ih True by (simp add: l Let_def)
  next
    case False
    let ?s1 = "s\<lparr>waitq := q\<rparr>"
    have eq: "drain_queue (Suc n) car s tmp removed = drain_queue n car ?s1 (tmp @ [w]) removed"
      using d False by simp
    have ih: "let r = drain_queue n car ?s1 (tmp @ [w]) removed; l = queue_list (waitq ?s1) in
      queue_ok (waitq (fst r)) \<and>
      queue_list (waitq (fst r)) = drop n l \<and>
      fst (snd r) = (tmp @ [w]) @ filter (\<lambda>w. w \<noteq> car) (take n l) \<and>
      snd (snd r) = (removed \<or> car \<in> set (take n l)) \<and>
      slotOfCar (fst r) = (if car \<in> set (take n l) then (slotOfCar ?s1)[nat car := - 1] else slotOfCar ?s1)"
      using Suc.IH[of ?s1 "tmp @ [w]" removed] dq n by simp
    show ?thesis unfolding eq using ih False by (simp add: l Let_def)
  qed
qed

lemma filter_remove1:
  "distinct xs \<Longrightarrow> filter (\<lambda>w. w \<noteq> x) xs = remove1 x xs"
  by (induction xs) (auto simp: filter_id_conv)

section \<open>Initialisation and the emergency reset\<close>

lemma fold_list_update:
  "m \<le> n \<Longrightarrow> n \<le> length xs \<Longrightarrow>
   fold (\<lambda>i xs. xs[i := v]) [m..<n] xs = take m xs @ replicate (n - m) v @ drop n xs"
proof (induction n)
  case 0
  then show ?case by simp
next
  case (Suc n)
  show ?case
  proof (cases "m = Suc n")
    case True
    then show ?thesis by simp
  next
    case False
    then have mn: "m \<le> n" "n < length xs" using Suc.prems by auto
    have "fold (\<lambda>i xs. xs[i := v]) [m..<Suc n] xs
          = (take m xs @ replicate (n - m) v @ drop n xs)[n := v]"
      using Suc.IH mn by simp
    also have "\<dots> = take m xs @ replicate (n - m) v @ (drop n xs)[0 := v]"
      using mn by (simp add: list_update_append)
    also have "(drop n xs)[0 := v] = v # drop (Suc n) xs"
      by (subst Cons_nth_drop_Suc[OF mn(2), symmetric]) simp
    also have "take m xs @ replicate (n - m) v @ v # drop (Suc n) xs
          = take m xs @ replicate (Suc n - m) v @ drop (Suc n) xs"
      using mn by (simp add: Suc_diff_le replicate_append_same)
    finally show ?thesis .
  qed
qed

lemma fold_cars_emergency:
  "fold (\<lambda>c s. s\<lparr>slotOfCar := (slotOfCar s)[c := - 1],
                  entryTimeOfCar := (entryTimeOfCar s)[c := 0]\<rparr>) cs s =
   s\<lparr>slotOfCar := fold (\<lambda>c xs. xs[c := - 1]) cs (slotOfCar s),
     entryTimeOfCar := fold (\<lambda>c xs. xs[c := 0]) cs (entryTimeOfCar s)\<rparr>"
  by (induction cs arbitrary: s) simp_all

lemma fold_cars_init:
  "fold (\<lambda>i s. s\<lparr>slotOfCar := (slotOfCar s)[i := - 1],
                  entryTimeOfCar := (entryTimeOfCar s)[i := 0],
                  passUser := (passUser s)[i := 0]\<rparr>) cs s =
   s\<lparr>slotOfCar := fold (\<lambda>c xs. xs[c := - 1]) cs (slotOfCar s),
     entryTimeOfCar := fold (\<lambda>c xs. xs[c := 0]) cs (entryTimeOfCar s),
     passUser := fold (\<lambda>c xs. xs[c := 0]) cs (passUser s)\<rparr>"
  by (induction cs arbitrary: s) simp_all

lemma fold_slots:
  "fold (\<lambda>i s. s\<lparr>slotToCar := (slotToCar s)[i := - 1]\<rparr>) cs s =
   s\<lparr>slotToCar := fold (\<lambda>c xs. xs[c := - 1]) cs (slotToCar s)\<rparr>"
  by (induction cs arbitrary: s) simp_all

lemma fold_heap:
  "fold (\<lambda>i s. s\<lparr>heap := heapInsert (int i) (heap s)\<rparr>) cs s =
   s\<lparr>heap := fold (\<lambda>i h. heapInsert (int i) h) cs (heap s)\<rparr>"
  by (induction cs arbitrary: s) simp_all

lemma heap_ok_empty:
  "length (heapArr h) = MAX_SLOTS + 1 \<Longrightarrow> heap_ok (h\<lparr>heapSize := 0\<rparr>)"
  by (simp add: heap_ok_def heap_order_def)

lemma fold_heapInsert:
  "heap_ok h \<Longrightarrow> heapSize h = 0 \<Longrightarrow> n \<le> MAX_SLOTS \<Longrightarrow>
   heap_ok (fold (\<lambda>i h. heapInsert (int i) h) [1..<Suc n] h) \<and>
   heapSize (fold (\<lambda>i h. heapInsert (int i) h) [1..<Suc n] h) = n \<and>
   mset (heap_list (fold (\<lambda>i h. heapInsert (int i) h) [1..<Suc n] h)) = mset (map int [1..<Suc n])"
proof (induction n)
  case 0
  then show ?case by (simp add: heap_list_def)
next
  case (Suc n)
  let ?h = "fold (\<lambda>i h. heapInsert (int i) h) [1..<Suc n] h"
  have ih: "heap_ok ?h" "heapSize ?h = n" "mset (heap_list ?h) = mset (map int [1..<Suc n])"
    using Suc by simp_all
  have lt: "heapSize ?h < MAX_SLOTS" using ih Suc.prems by simp
  note ins = heapInsert_ok[OF ih(1) lt, of "int (Suc n)"]
  have eq: "fold (\<lambda>i h. heapInsert (int i) h) [1..<Suc (Suc n)] h = heapInsert (int (Suc n)) ?h"
    by simp
  show ?case unfolding eq using ins ih by simp
qed

lemma full_heap_list:
  assumes "mset (heap_list h) = mset (map int [1..<Suc MAX_SLOTS])"
  shows "distinct (heap_list h)" and "set (heap_list h) = {v. 1 \<le> v \<and> v \<le> int MAX_SLOTS}"
proof -
  have d: "distinct (map int [1..<Suc MAX_SLOTS])" by (simp add: distinct_map)
  show "distinct (heap_list h)"
    using mset_eq_imp_distinct_iff[OF assms] d by simp
  have "set (heap_list h) = set (map int [1..<Suc MAX_SLOTS])"
    using mset_eq_setD[OF assms] .
  also have "\<dots> = {v. 1 \<le> v \<and> v \<le> int MAX_SLOTS}"
  proof (rule set_eqI)
    fix v :: int
    show "v \<in> set (map int [1..<Suc MAX_SLOTS]) \<longleftrightarrow> v \<in> {v. 1 \<le> v \<and> v \<le> int MAX_SLOTS}"
    proof
      assume "v \<in> set (map int [1..<Suc MAX_SLOTS])"
      then show "v \<in> {v. 1 \<le> v \<and> v \<le> int MAX_SLOTS}" by (auto simp del: upt_Suc)
    next
      assume "v \<in> {v. 1 \<le> v \<and> v \<le> int MAX_SLOTS}"
      then have "nat v \<in> set [1..<Suc MAX_SLOTS]" "v = int (nat v)" by (auto simp del: upt_Suc)
      then show "v \<in> set (map int [1..<Suc MAX_SLOTS])" by (metis image_eqI set_map)
    qed
  qed
  finally show "set (heap_list h) = {v. 1 \<le> v \<and> v \<le> int MAX_SLOTS}" .
qed

lemma emergencyMode_tables:
  assumes "arrays_ok s"
  shows "slotOfCar (emergencyMode s) = replicate MAX_CARS (- 1)"
    and "entryTimeOfCar (emergencyMode s) = replicate MAX_CARS 0"
    and "slotToCar (emergencyMode s) = slotToCar s ! 0 # replicate MAX_SLOTS (- 1)"
    and "waitq (emergencyMode s) = (waitq s)\<lparr>waitFront := 0, waitRear := - 1, waitCount := 0\<rparr>"
proof -
  have l: "length (slotOfCar s) = 100" "length (entryTimeOfCar s) = 100" "length (slotToCar s) = 11"
    using assms by (auto simp: arrays_ok_def)
  show "slotOfCar (emergencyMode s) = replicate MAX_CARS (- 1)"
    unfolding emergencyMode_def Let_def fold_cars_emergency fold_slots fold_heap
    using l by (simp add: fold_list_update del: upt_Suc)
  show "entryTimeOfCar (emergencyMode s) = replicate MAX_CARS 0"
    unfolding emergencyMode_def Let_def fold_cars_emergency fold_slots fold_heap
    using l by (simp add: fold_list_update del: upt_Suc)
  have "take 1 (slotToCar s) = [slotToCar s ! 0]"
    using l by (cases "slotToCar s") auto
  then show "slotToCar (emergencyMode s) = slotToCar s ! 0 # replicate MAX_SLOTS (- 1)"
    unfolding emergencyMode_def Let_def fold_cars_emergency fold_slots fold_heap
    using l by (simp add: fold_list_update del: upt_Suc)
  show "waitq (emergencyMode s) = (waitq s)\<lparr>waitFront := 0, waitRear := - 1, waitCount := 0\<rparr>"
    unfolding emergencyMode_def Let_def fold_cars_emergency fold_slots fold_heap
    by simp
qed

lemma emergencyMode_frame:
  "passUser (emergencyMode s) = passUser s"
  "history (emergencyMode s) = history s"
  "totalRevenue (emergencyMode s) = totalRevenue s"
  unfolding emergencyMode_def Let_def fold_cars_emergency fold_slots fold_heap
  by simp_all

lemma emergencyMode_heap:
  assumes "arrays_ok s"
  shows "heap_ok (heap (emergencyMode s))"
    and "heapSize (heap (emergencyMode s)) = MAX_SLOTS"
    and "distinct (heap_list (heap (emergencyMode s)))"
    and "set (heap_list (heap (emergencyMode s))) = {v. 1 \<le> v \<and> v \<le> int MAX_SLOTS}"
proof -
  let ?h0 = "(heap s)\<lparr>heapSize := 0\<rparr>"
  have h0: "heap_ok ?h0" "heapSize ?h0 = 0"
    using assms heap_ok_empty[of "heap s"] by (auto simp: arrays_ok_def)
  have eq: "heap (emergencyMode s) = fold (\<lambda>i h. heapInsert (int i) h) [1..<Suc MAX_SLOTS] ?h0"
    unfolding emergencyMode_def Let_def fold_cars_emergency fold_slots fold_heap
    by simp
  note f = fold_heapInsert[OF h0, of MAX_SLOTS, folded eq]
  show "heap_ok (heap (emergencyMode s))" using f by simp
  show "heapSize (heap (emergencyMode s)) = MAX_SLOTS" using f by simp
  have m: "mset (heap_list (heap (emergencyMode s))) = mset (map int [1..<Suc MAX_SLOTS])"
    using f by simp
  show "distinct (heap_list (heap (emergencyMode s)))" using full_heap_list(1)[OF m] .
  show "set (heap_list (heap (emergencyMode s))) = {v. 1 \<le> v \<and> v \<le> int MAX_SLOTS}"
    using full_heap_list(2)[OF m] .
qed

lemma occupancy_ok_clear:
  "occupancy_ok (replicate MAX_CARS (- 1)) (x # replicate MAX_SLOTS (- 1))"
  unfolding occupancy_ok_def by (auto simp: nth_Cons')

lemma free_slots_clear:
  "free_slots (x # replicate MAX_SLOTS (- 1)) = {v. 1 \<le> v \<and> v \<le> int MAX_SLOTS}"
  unfolding free_slots_def by (auto simp: nth_Cons')

lemma waiting_cars_clear: "waiting_cars (replicate MAX_CARS (- 1)) = {}"
  unfolding waiting_cars_def by auto

lemma sys_inv_emergencyMode:
  assumes "arrays_ok s"
  shows "sys_inv (emergencyMode s)"
proof -
  note t = emergencyMode_tables[OF assms] and h = emergencyMode_heap[OF assms]
    and f = emergencyMode_frame[of s]
  have q: "queue_ok (waitq (emergencyMode s))" "queue_list (waitq (emergencyMode s)) = []"
    using assms unfolding t(4) by (simp_all add: queue_ok_def queue_list_def arrays_ok_def)
  show ?thesis
    unfolding sys_inv_def
    using h q assms
    by (simp add: t(1,2,3) f occupancy_ok_clear free_slots_clear waiting_cars_clear arrays_ok_def)
       (simp add: t(4))
qed

lemma initSystem_tables:
  assumes "arrays_ok s"
  shows "slotOfCar (initSystem s) = replicate MAX_CARS (- 1)"
    and "entryTimeOfCar (initSystem s) = replicate MAX_CARS 0"
    and "passUser (initSystem s) = replicate MAX_CARS 0"
    and "slotToCar (initSystem s) = replicate (MAX_SLOTS + 1) (- 1)"
    and "waitq (initSystem s) = (waitq s)\<lparr>waitFront := 0, waitRear := - 1, waitCount := 0\<rparr>"
    and "history (initSystem s) = []"
    and "totalRevenue (initSystem s) = 0"
proof -
  have l: "length (slotOfCar s) = 100" "length (entryTimeOfCar s) = 100"
    "length (passUser s) = 100" "length (slotToCar s) = 11"
    using assms by (auto simp: arrays_ok_def)
  show "slotOfCar (initSystem s) = replicate MAX_CARS (- 1)"
    unfolding initSystem_def Let_def fold_cars_init fold_slots fold_heap
    using l by (simp add: fold_list_update del: upt_Suc)
  show "entryTimeOfCar (initSystem s) = replicate MAX_CARS 0"
    unfolding initSystem_def Let_def fold_cars_init fold_slots fold_heap
    using l by (simp add: fold_list_update del: upt_Suc)
  show "passUser (initSystem s) = replicate MAX_CARS 0"
    unfolding initSystem_def Let_def fold_cars_init fold_slots fold_heap
    using l by (simp add: fold_list_update del: upt_Suc)
  show "slotToCar (initSystem s) = replicate (MAX_SLOTS + 1) (- 1)"
    unfolding initSystem_def Let_def fold_cars_init fold_slots fold_heap
    using l by (simp add: fold_list_update del: upt_Suc)
  show "waitq (initSystem s) = (waitq s)\<lparr>waitFront := 0, waitRear := - 1, waitCount := 0\<rparr>"
    unfolding initSystem_def Let_def fold_cars_init fold_slots fold_heap
    by simp
  show "history (initSystem s) = []"
    unfolding initSystem_def Let_def fold_cars_init fold_slots fold_heap
    by simp
  show "totalRevenue (initSystem s) = 0"
    unfolding initSystem_def Let_def fold_cars_init fold_slots fold_heap
    by simp
qed

lemma initSystem_heap:
  assumes "arrays_ok s"
  shows "heap_ok (heap (initSystem s))"
    and "heapSize (heap (initSystem s)) = MAX_SLOTS"
    and "distinct (heap_list (heap (initSystem s)))"
    and "set (heap_list (heap (initSystem s))) = {v. 1 \<le> v \<and> v \<le> int MAX_SLOTS}"
proof -
  let ?h0 = "(heap s)\<lparr>heapSize := 0\<rparr>"
  have h0: "heap_ok ?h0" "heapSize ?h0 = 0"
    using assms heap_ok_empty[of "heap s"] by (auto simp: arrays_ok_def)
  have eq: "heap (initSystem s) = fold (\<lambda>i h. heapInsert (int i) h) [1..<Suc MAX_SLOTS] ?h0"
    unfolding initSystem_def Let_def fold_cars_init fold_slots fold_heap
    by simp
  note f = fold_heapInsert[OF h0, of MAX_SLOTS, folded eq]
  show "heap_ok (heap (initSystem s))" using f by simp
  show "heapSize (heap (initSystem s)) = MAX_SLOTS" using f by simp
  have m: "mset (heap_list (heap (initSystem s))) = mset (map int [1..<Suc MAX_SLOTS])"
    using f by simp
  show "distinct (heap_list (heap (initSystem s)))" using full_heap_list(1)[OF m] .
  show "set (heap_list (heap (initSystem s))) = {v. 1 \<le> v \<and> v \<le> int MAX_SLOTS}"
    using full_heap_list(2)[OF m] .
qed

lemma arrays_ok_zero_state: "arrays_ok zero_state"
  by (simp add: arrays_ok_def zero_state_def)

lemma sys_inv_initSystem:
  assumes "arrays_ok s"
  shows "sys_inv (initSystem s)"
proof -
  note t = initSystem_tables[OF assms] and h = initSystem_heap[OF assms]
  have q: "queue_ok (waitq (initSystem s))" "queue_list (waitq (initSystem s)) = []"
    using assms unfolding t(5) by (simp_all add: queue_ok_def queue_list_def arrays_ok_def)
  have r: "replicate (MAX_SLOTS + 1) (- 1 :: int) = - 1 # replicate MAX_SLOTS (- 1)"
    by (simp only: Suc_eq_plus1[symmetric] replicate_Suc)
  have "occupancy_ok (slotOfCar (initSystem s)) (slotToCar (initSystem s))"
    unfolding t r by (rule occupancy_ok_clear)
  moreover have "free_slots (slotToCar (initSystem s)) = {v. 1 \<le> v \<and> v \<le> int MAX_SLOTS}"
    unfolding t r by (rule free_slots_clear)
  moreover have "waiting_cars (slotOfCar (initSystem s)) = {}"
    unfolding t by (rule waiting_cars_clear)
  moreover have "waitCount (waitq (initSystem s)) = 0" by (simp add: t(5))
  ultimately show ?thesis
    unfolding sys_inv_def using h q by (simp add: t(2,3))
qed

lemma sys_inv_arrays_ok: "sys_inv s \<Longrightarrow> arrays_ok s"
  by (simp add: sys_inv_def arrays_ok_def occupancy_ok_def heap_ok_def queue_ok_def)

section \<open>The invariant\<close>

lemma occupancy_slot:
  assumes "occupancy_ok soc stc" "1 \<le> w" "w \<le> MAX_SLOTS" "stc ! w \<noteq> - 1"
  shows "0 \<le> stc ! w" "stc ! w < int MAX_CARS" "soc ! nat (stc ! w) = int w"
proof -
  from assms(1) have "\<forall>v. 1 \<le> v \<and> v \<le> MAX_SLOTS \<longrightarrow>
           stc ! v = - 1 \<or>
           (0 \<le> stc ! v \<and> stc ! v < int MAX_CARS \<and> soc ! nat (stc ! v) = int v)"
    unfolding occupancy_ok_def by (elim conjE)
  from this[rule_format, of w] assms(2-4)
  show "0 \<le> stc ! w" "stc ! w < int MAX_CARS" "soc ! nat (stc ! w) = int w" by simp_all
qed

lemma occupancy_car:
  assumes "occupancy_ok soc stc" "d < MAX_CARS" "soc ! d \<noteq> - 1" "soc ! d \<noteq> - 2"
  shows "1 \<le> soc ! d" "soc ! d \<le> int MAX_SLOTS" "stc ! nat (soc ! d) = int d"
proof -
  from assms(1) have "\<forall>c. c < MAX_CARS \<longrightarrow>
           soc ! c = - 1 \<or> soc ! c = - 2 \<or>
           (1 \<le> soc ! c \<and> soc ! c \<le> int MAX_SLOTS \<and> stc ! nat (soc ! c) = int c)"
    unfolding occupancy_ok_def by (elim conjE)
  from this[rule_format, of d] assms(2-4)
  show "1 \<le> soc ! d" "soc ! d \<le> int MAX_SLOTS" "stc ! nat (soc ! d) = int d" by simp_all
qed

lemma occupancy_len:
  assumes "occupancy_ok soc stc"
  shows "length soc = MAX_CARS" "length stc = MAX_SLOTS + 1"
  using assms unfolding occupancy_ok_def by simp_all

lemma occupancy_okI:
  assumes "length soc = MAX_CARS" "length stc = MAX_SLOTS + 1"
    "\<And>v. 1 \<le> v \<Longrightarrow> v \<le> MAX_SLOTS \<Longrightarrow> stc ! v = - 1 \<or>
           (0 \<le> stc ! v \<and> stc ! v < int MAX_CARS \<and> soc ! nat (stc ! v) = int v)"
    "\<And>c. c < MAX_CARS \<Longrightarrow> soc ! c = - 1 \<or> soc ! c = - 2 \<or>
           (1 \<le> soc ! c \<and> soc ! c \<le> int MAX_SLOTS \<and> stc ! nat (soc ! c) = int c)"
  shows "occupancy_ok soc stc"
  unfolding occupancy_ok_def using assms by (intro conjI allI impI) simp_all


lemma occupancy_assign:
  assumes o: "occupancy_ok soc stc" and c: "c < MAX_CARS" "soc ! c = - 1 \<or> soc ! c = - 2"
    and v: "1 \<le> v" "v \<le> MAX_SLOTS" "stc ! v = - 1"
  shows "occupancy_ok (soc[c := int v]) (stc[v := int c])"
proof -
  have len: "length soc = 100" "length stc = 11" using occupancy_len[OF o] by simp_all
  have o1: "\<And>w. 1 \<le> w \<Longrightarrow> w \<le> 10 \<Longrightarrow> stc ! w \<noteq> - 1 \<Longrightarrow>
      0 \<le> stc ! w \<and> stc ! w < 100 \<and> soc ! nat (stc ! w) = int w"
    using occupancy_slot[OF o] by simp
  have o2: "\<And>d. d < 100 \<Longrightarrow> soc ! d \<noteq> - 1 \<Longrightarrow> soc ! d \<noteq> - 2 \<Longrightarrow>
      1 \<le> soc ! d \<and> soc ! d \<le> 10 \<and> stc ! nat (soc ! d) = int d"
    using occupancy_car[OF o] by simp
  have g1: "(stc[v := int c]) ! w = - 1 \<or>
      (0 \<le> (stc[v := int c]) ! w \<and> (stc[v := int c]) ! w < int MAX_CARS \<and>
       (soc[c := int v]) ! nat ((stc[v := int c]) ! w) = int w)"
    if w: "1 \<le> w" "w \<le> MAX_SLOTS" for w
  proof (cases "w = v")
    case True
    then show ?thesis using c v len by simp
  next
    case False
    show ?thesis
    proof (cases "stc ! w = - 1")
      case True
      then show ?thesis using False by simp
    next
      case ne: False
      note p = o1[OF w ne]
      have "nat (stc ! w) \<noteq> c" using p c by auto
      then show ?thesis using p False by simp
    qed
  qed
  have g2: "(soc[c := int v]) ! d = - 1 \<or> (soc[c := int v]) ! d = - 2 \<or>
      (1 \<le> (soc[c := int v]) ! d \<and> (soc[c := int v]) ! d \<le> int MAX_SLOTS \<and>
       (stc[v := int c]) ! nat ((soc[c := int v]) ! d) = int d)"
    if d: "d < MAX_CARS" for d
  proof (cases "d = c")
    case True
    then show ?thesis using c v len by simp
  next
    case False
    show ?thesis
    proof (cases "soc ! d = - 1 \<or> soc ! d = - 2")
      case True
      then show ?thesis using False by auto
    next
      case ne: False
      then have p: "1 \<le> soc ! d \<and> soc ! d \<le> 10 \<and> stc ! nat (soc ! d) = int d"
        using o2[OF d] by simp
      have "nat (soc ! d) \<noteq> v" using p v by auto
      then show ?thesis using p False by simp
    qed
  qed
  show ?thesis using len g1 g2 by (intro occupancy_okI) simp_all
qed

lemma occupancy_release:
  assumes o: "occupancy_ok soc stc" and c: "c < MAX_CARS" "1 \<le> soc ! c"
  shows "occupancy_ok (soc[c := - 1]) (stc[nat (soc ! c) := - 1])"
    and "1 \<le> nat (soc ! c)" and "nat (soc ! c) \<le> MAX_SLOTS" and "stc ! nat (soc ! c) = int c"
proof -
  have len: "length soc = 100" "length stc = 11" using occupancy_len[OF o] by simp_all
  have o1: "\<And>w. 1 \<le> w \<Longrightarrow> w \<le> 10 \<Longrightarrow> stc ! w \<noteq> - 1 \<Longrightarrow>
      0 \<le> stc ! w \<and> stc ! w < 100 \<and> soc ! nat (stc ! w) = int w"
    using occupancy_slot[OF o] by simp
  have o2: "\<And>d. d < 100 \<Longrightarrow> soc ! d \<noteq> - 1 \<Longrightarrow> soc ! d \<noteq> - 2 \<Longrightarrow>
      1 \<le> soc ! d \<and> soc ! d \<le> 10 \<and> stc ! nat (soc ! d) = int d"
    using occupancy_car[OF o] by simp
  define v where "v = nat (soc ! c)"
  have pc: "1 \<le> soc ! c \<and> soc ! c \<le> 10 \<and> stc ! nat (soc ! c) = int c"
    using o2[OF c(1)] c(2) by simp
  then have v: "1 \<le> v" "v \<le> 10" "stc ! v = int c" "int v = soc ! c" by (auto simp: v_def)
  show "1 \<le> nat (soc ! c)" "nat (soc ! c) \<le> MAX_SLOTS" "stc ! nat (soc ! c) = int c"
    using v by (auto simp: v_def)
  have g1: "(stc[v := - 1]) ! w = - 1 \<or>
      (0 \<le> (stc[v := - 1]) ! w \<and> (stc[v := - 1]) ! w < int MAX_CARS \<and>
       (soc[c := - 1]) ! nat ((stc[v := - 1]) ! w) = int w)"
    if w: "1 \<le> w" "w \<le> MAX_SLOTS" for w
  proof (cases "w = v")
    case True
    then show ?thesis using v len by simp
  next
    case False
    show ?thesis
    proof (cases "stc ! w = - 1")
      case True
      then show ?thesis using False by simp
    next
      case ne: False
      note p = o1[OF w ne]
      have "nat (stc ! w) \<noteq> c" using p v False by auto
      then show ?thesis using p False by simp
    qed
  qed
  have g2: "(soc[c := - 1]) ! d = - 1 \<or> (soc[c := - 1]) ! d = - 2 \<or>
      (1 \<le> (soc[c := - 1]) ! d \<and> (soc[c := - 1]) ! d \<le> int MAX_SLOTS \<and>
       (stc[v := - 1]) ! nat ((soc[c := - 1]) ! d) = int d)"
    if d: "d < MAX_CARS" for d
  proof (cases "d = c")
    case True
    then show ?thesis using c len by simp
  next
    case False
    show ?thesis
    proof (cases "soc ! d = - 1 \<or> soc ! d = - 2")
      case True
      then show ?thesis using False by auto
    next
      case ne: False
      then have p: "1 \<le> soc ! d \<and> soc ! d \<le> 10 \<and> stc ! nat (soc ! d) = int d"
        using o2[OF d] by simp
      have "nat (soc ! d) \<noteq> v" using p v False by auto
      then show ?thesis using p False by simp
    qed
  qed
  show "occupancy_ok (soc[c := - 1]) (stc[nat (soc ! c) := - 1])"
    unfolding v_def[symmetric] using len g1 g2 by (intro occupancy_okI) simp_all
qed

lemma occupancy_mark:
  assumes o: "occupancy_ok soc stc" and c: "c < MAX_CARS" "soc ! c = - 1 \<or> soc ! c = - 2"
    and x: "x = - 1 \<or> x = - 2"
  shows "occupancy_ok (soc[c := x]) stc"
proof -
  have len: "length soc = 100" "length stc = 11" using occupancy_len[OF o] by simp_all
  have o1: "\<And>w. 1 \<le> w \<Longrightarrow> w \<le> 10 \<Longrightarrow> stc ! w \<noteq> - 1 \<Longrightarrow>
      0 \<le> stc ! w \<and> stc ! w < 100 \<and> soc ! nat (stc ! w) = int w"
    using occupancy_slot[OF o] by simp
  have o2: "\<And>d. d < 100 \<Longrightarrow> soc ! d \<noteq> - 1 \<Longrightarrow> soc ! d \<noteq> - 2 \<Longrightarrow>
      1 \<le> soc ! d \<and> soc ! d \<le> 10 \<and> stc ! nat (soc ! d) = int d"
    using occupancy_car[OF o] by simp
  have g1: "stc ! w = - 1 \<or>
      (0 \<le> stc ! w \<and> stc ! w < int MAX_CARS \<and> (soc[c := x]) ! nat (stc ! w) = int w)"
    if w: "1 \<le> w" "w \<le> MAX_SLOTS" for w
  proof (cases "stc ! w = - 1")
    case True
    then show ?thesis by simp
  next
    case ne: False
    note p = o1[OF w ne]
    have "nat (stc ! w) \<noteq> c" using p c w by auto
    then show ?thesis using p by simp
  qed
  have g2: "(soc[c := x]) ! d = - 1 \<or> (soc[c := x]) ! d = - 2 \<or>
      (1 \<le> (soc[c := x]) ! d \<and> (soc[c := x]) ! d \<le> int MAX_SLOTS \<and>
       stc ! nat ((soc[c := x]) ! d) = int d)"
    if d: "d < MAX_CARS" for d
  proof (cases "d = c")
    case True
    then show ?thesis using c x len by auto
  next
    case False
    then show ?thesis using o2[OF d] by auto
  qed
  show ?thesis using len g1 g2 by (intro occupancy_okI) simp_all
qed

lemma free_slots_take:
  assumes "length stc = MAX_SLOTS + 1" "v \<le> MAX_SLOTS" "0 \<le> x"
  shows "free_slots (stc[v := x]) = free_slots stc - {int v}"
  using assms unfolding free_slots_def by (auto simp: nth_list_update)

lemma free_slots_give:
  assumes "length stc = MAX_SLOTS + 1" "1 \<le> v" "v \<le> MAX_SLOTS"
  shows "free_slots (stc[v := - 1]) = insert (int v) (free_slots stc)"
  using assms unfolding free_slots_def by (auto simp: nth_list_update)

lemma waiting_cars_update:
  assumes "length soc = MAX_CARS" "c < MAX_CARS"
  shows "waiting_cars (soc[c := x]) =
         (if x = - 2 then insert (int c) (waiting_cars soc) else waiting_cars soc - {int c})"
  using assms unfolding waiting_cars_def by (auto simp: nth_list_update)

lemma mset_remove_distinct:
  assumes "mset xs = add_mset x (mset ys)" "distinct xs"
  shows "distinct ys" and "set ys = set xs - {x}"
proof -
  have m: "mset xs = mset (x # ys)" using assms by simp
  have d: "distinct (x # ys)" using mset_eq_imp_distinct_iff[OF m] assms(2) by simp
  then show "distinct ys" by simp
  have "set xs = set (x # ys)" using mset_eq_setD[OF m] .
  then show "set ys = set xs - {x}" using d by auto
qed

lemma mset_add_distinct:
  assumes "mset ys = add_mset x (mset xs)" "distinct xs" "x \<notin> set xs"
  shows "distinct ys" and "set ys = insert x (set xs)"
proof -
  have m: "mset ys = mset (x # xs)" using assms by simp
  show "distinct ys" using mset_eq_imp_distinct_iff[OF m] assms(2,3) by simp
  show "set ys = insert x (set xs)" using mset_eq_setD[OF m] by simp
qed

lemma sys_invD:
  assumes "sys_inv s"
  shows "occupancy_ok (slotOfCar s) (slotToCar s)"
    and "length (entryTimeOfCar s) = MAX_CARS" and "length (passUser s) = MAX_CARS"
    and "heap_ok (heap s)" and "distinct (heap_list (heap s))"
    and "set (heap_list (heap s)) = free_slots (slotToCar s)"
    and "queue_ok (waitq s)" and "distinct (queue_list (waitq s))"
    and "set (queue_list (waitq s)) = waiting_cars (slotOfCar s)"
    and "0 < waitCount (waitq s) \<Longrightarrow> heapSize (heap s) = 0"
  using assms unfolding sys_inv_def by simp_all

lemma free_slots_range: "v \<in> free_slots stc \<Longrightarrow> 1 \<le> v \<and> v \<le> 10 \<and> stc ! nat v = - 1"
  by (simp add: free_slots_def)

lemma finite_free_slots: "finite (free_slots stc)"
proof -
  have "free_slots stc \<subseteq> {1..10}" by (auto simp: free_slots_def)
  then show ?thesis using finite_subset by blast
qed

lemma heap_take:
  assumes "heap_ok h" "distinct (heap_list h)" "set (heap_list h) = free_slots stc"
    "0 < heapSize h" "length stc = MAX_SLOTS + 1" "0 \<le> car"
  shows "fst (heapRemoveMin h) = Min (free_slots stc)"
    and "fst (heapRemoveMin h) \<in> free_slots stc"
    and "heap_ok (snd (heapRemoveMin h))"
    and "distinct (heap_list (snd (heapRemoveMin h)))"
    and "set (heap_list (snd (heapRemoveMin h))) = free_slots (stc[nat (fst (heapRemoveMin h)) := car])"
    and "heapSize (snd (heapRemoveMin h)) = heapSize h - 1"
proof -
  note r = heapRemoveMin_correct[OF assms(1,4)]
  have m: "fst (heapRemoveMin h) = Min (set (heap_list h))"
    using r(1) heap_root_Min[OF assms(1,4)] by simp
  show "fst (heapRemoveMin h) = Min (free_slots stc)" using m assms(3) by simp
  have "heap_list h \<noteq> []" using assms(4) length_heap_list[of h] by (auto simp del: length_heap_list)
  then have mem: "fst (heapRemoveMin h) \<in> set (heap_list h)" using m Min_in[of "set (heap_list h)"] by simp
  then show f: "fst (heapRemoveMin h) \<in> free_slots stc" using assms(3) by simp
  show "heap_ok (snd (heapRemoveMin h))" by (rule r(2))
  show "heapSize (snd (heapRemoveMin h)) = heapSize h - 1" by (rule r(3))
  note d = mset_remove_distinct[OF r(4)[folded r(1)] assms(2)]
  show "distinct (heap_list (snd (heapRemoveMin h)))" by (rule d(1))
  have "nat (fst (heapRemoveMin h)) \<le> MAX_SLOTS" "int (nat (fst (heapRemoveMin h))) = fst (heapRemoveMin h)"
    using free_slots_range[OF f] by auto
  then have "free_slots (stc[nat (fst (heapRemoveMin h)) := car]) = free_slots stc - {fst (heapRemoveMin h)}"
    using free_slots_take[OF assms(5) _ assms(6), of "nat (fst (heapRemoveMin h))"] by simp
  then show "set (heap_list (snd (heapRemoveMin h))) = free_slots (stc[nat (fst (heapRemoveMin h)) := car])"
    using d(2) assms(3) by simp
qed

lemma heap_give:
  assumes "heap_ok h" "distinct (heap_list h)" "set (heap_list h) = free_slots stc"
    "length stc = MAX_SLOTS + 1" "1 \<le> v" "v \<le> MAX_SLOTS" "stc ! v \<noteq> - 1"
  shows "heapSize h < MAX_SLOTS"
    and "heap_ok (heapInsert (int v) h)"
    and "distinct (heap_list (heapInsert (int v) h))"
    and "set (heap_list (heapInsert (int v) h)) = free_slots (stc[v := - 1])"
    and "heapSize (heapInsert (int v) h) = Suc (heapSize h)"
proof -
  have notin: "int v \<notin> free_slots stc" using assms(7) by (simp add: free_slots_def)
  have "free_slots stc \<subseteq> {1..10} - {int v}" using notin by (auto simp: free_slots_def)
  then have "card (free_slots stc) \<le> card ({1..10} - {int v})"
    by (intro card_mono) auto
  also have "\<dots> = 9" using assms(5,6) by simp
  finally have "card (set (heap_list h)) \<le> 9" using assms(3) by simp
  then have "length (heap_list h) \<le> 9" using distinct_card[OF assms(2)] by simp
  then show lt: "heapSize h < MAX_SLOTS" by simp
  note i = heapInsert_ok[OF assms(1) lt, of "int v"]
  show "heap_ok (heapInsert (int v) h)" by (rule i(1))
  show "heapSize (heapInsert (int v) h) = Suc (heapSize h)" by (rule i(2))
  note d = mset_add_distinct[OF i(3) assms(2)] 
  show "distinct (heap_list (heapInsert (int v) h))" using d(1) notin assms(3) by simp
  show "set (heap_list (heapInsert (int v) h)) = free_slots (stc[v := - 1])"
    using d(2) notin assms(3) free_slots_give[OF assms(4,5,6)] by simp
qed

lemma canEnter_None:
  assumes "sys_inv s" "canEnter car s = None"
  shows "0 \<le> car" "car < int MAX_CARS" "slotOfCar s ! nat car = - 1"
proof -
  have c: "0 \<le> car" "car < 100" "\<not> 1 \<le> slotOfCar s ! nat car" "slotOfCar s ! nat car \<noteq> - 2"
    using assms(2) by (auto simp: canEnter_def split: if_splits)
  show "0 \<le> car" "car < int MAX_CARS" using c by simp_all
  have "nat car < MAX_CARS" using c by simp
  then show "slotOfCar s ! nat car = - 1"
    using occupancy_car(1)[OF sys_invD(1)[OF assms(1)], of "nat car"] c by auto
qed

subsection \<open>Entry keeps the invariant\<close>

lemma sys_inv_history [simp]: "sys_inv (s\<lparr>history := hs\<rparr>) = sys_inv s"
  by (simp add: sys_inv_def)

lemma sys_inv_addHistoryNode [simp]:
  "sys_inv (addHistoryNode alloc car slot entry exitT s) = sys_inv s"
  by (simp add: addHistoryNode_def)

lemma sys_inv_totalRevenue [simp]: "sys_inv (s\<lparr>totalRevenue := r\<rparr>) = sys_inv s"
  by (simp add: sys_inv_def)

lemma vehicleEntry_refused:
  "canEnter car s = Some r \<Longrightarrow> vehicleEntry (Some car) now alloc s = (r, s)"
  by (simp add: vehicleEntry_def)

lemma vehicleEntry_parks:
  assumes "sys_inv s" "canEnter car s = None" "0 < heapSize (heap s)"
  shows "vehicleEntry (Some car) now alloc s =
    (Entry_parked (Min (free_slots (slotToCar s))) now,
     addHistoryNode alloc car (Min (free_slots (slotToCar s))) now 0
       (s\<lparr>heap := snd (heapRemoveMin (heap s)),
          slotOfCar := (slotOfCar s)[nat car := Min (free_slots (slotToCar s))],
          entryTimeOfCar := (entryTimeOfCar s)[nat car := now],
          slotToCar := (slotToCar s)[nat (Min (free_slots (slotToCar s))) := car]\<rparr>))"
proof -
  note i = sys_invD[OF assms(1)] and c = canEnter_None[OF assms(1,2)]
  note t = heap_take[OF i(4,5,6) assms(3) occupancy_len(2)[OF i(1)] c(1)]
  have "fst (heapRemoveMin (heap s)) \<noteq> - 1" using free_slots_range[OF t(2)] by auto
  then show ?thesis
    unfolding vehicleEntry_def using assms(2) t(1)
    by (simp add: case_prod_beta Let_def)
qed

lemma vehicleEntry_full:
  assumes "canEnter car s = None" "heapSize (heap s) = 0" "waitCount (waitq s) = WAIT_CAP"
  shows "vehicleEntry (Some car) now alloc s = (Entry_full, s)"
  unfolding vehicleEntry_def using assms
  by (simp add: heapRemoveMin_empty)

lemma vehicleEntry_waits:
  assumes "sys_inv s" "canEnter car s = None" "heapSize (heap s) = 0" "waitCount (waitq s) < WAIT_CAP"
  shows "vehicleEntry (Some car) now alloc s =
    (Entry_waiting (Suc (waitCount (waitq s))),
     s\<lparr>waitq := snd (enqueueWait car (waitq s)),
       slotOfCar := (slotOfCar s)[nat car := - 2]\<rparr>)"
proof -
  note i = sys_invD[OF assms(1)]
  note e = enqueueWait_ok[OF i(7) assms(4), of car]
  show ?thesis
    unfolding vehicleEntry_def using assms(2,3,4) e(1,4)
    by (simp add: heapRemoveMin_empty case_prod_beta Let_def)
qed

lemma sys_inv_vehicleEntry:
  assumes "sys_inv s"
  shows "sys_inv (snd (vehicleEntry inp now alloc s))"
proof (cases inp)
  case None
  then show ?thesis using assms by (simp add: vehicleEntry_def)
next
  case (Some car)
  note i = sys_invD[OF assms]
  show ?thesis
  proof (cases "canEnter car s")
    case r: (Some r)
    show ?thesis unfolding Some vehicleEntry_refused[OF r] using assms by simp
  next
    case None
    note c = canEnter_None[OF assms None]
    have cn: "nat car < MAX_CARS" "int (nat car) = car" using c by auto
    show ?thesis
    proof (cases "0 < heapSize (heap s)")
      case True
      define slot where "slot = Min (free_slots (slotToCar s))"
      note t = heap_take[OF i(4,5,6) True occupancy_len(2)[OF i(1)] c(1)]
      have sl: "1 \<le> slot" "slot \<le> 10" "slotToCar s ! nat slot = - 1"
        using free_slots_range[OF t(2)] t(1) by (auto simp: slot_def)
      then have sn: "1 \<le> nat slot" "nat slot \<le> MAX_SLOTS" "int (nat slot) = slot" by auto
      have o: "occupancy_ok ((slotOfCar s)[nat car := slot]) ((slotToCar s)[nat slot := car])"
        using occupancy_assign[OF i(1) cn(1) _ sn(1,2) sl(3)] c(3) cn(2) sn(3) by simp
      have w: "waiting_cars ((slotOfCar s)[nat car := slot]) = waiting_cars (slotOfCar s)"
        using waiting_cars_update[OF occupancy_len(1)[OF i(1)] cn(1), of slot] sl c(3) cn(2)
        by (auto simp: waiting_cars_def)
      have wc: "waitCount (waitq s) = 0" using i(10) True by auto
      show ?thesis
        unfolding Some vehicleEntry_parks[OF assms None True] slot_def[symmetric]
        using o w wc i t[unfolded t(1), folded slot_def]
        by (simp add: sys_inv_def addHistoryNode_def)
    next
      case False
      then have hz: "heapSize (heap s) = 0" by simp
      show ?thesis
      proof (cases "waitCount (waitq s) = WAIT_CAP")
        case True
        show ?thesis unfolding Some vehicleEntry_full[OF None hz True] using assms by simp
      next
        case False
        then have lt: "waitCount (waitq s) < WAIT_CAP" using i(7) by (simp add: queue_ok_def)
        note e = enqueueWait_ok[OF i(7) lt, of car]
        have o: "occupancy_ok ((slotOfCar s)[nat car := - 2]) (slotToCar s)"
          using occupancy_mark[OF i(1) cn(1), of "- 2"] c(3) by simp
        have w: "waiting_cars ((slotOfCar s)[nat car := - 2]) = insert car (waiting_cars (slotOfCar s))"
          using waiting_cars_update[OF occupancy_len(1)[OF i(1)] cn(1), of "- 2"] cn(2) by simp
        have notin: "car \<notin> waiting_cars (slotOfCar s)" using c(3) by (simp add: waiting_cars_def)
        show ?thesis
          unfolding Some vehicleEntry_waits[OF assms None hz lt]
          using o w notin i e hz
          by (simp add: sys_inv_def)
      qed
    qed
  qed
qed

lemma canEnter_refusal:
  "canEnter car s = Some r \<Longrightarrow>
   r = Entry_invalid_id \<or> r = Entry_duplicate_parked \<or> r = Entry_duplicate_waiting"
  by (auto simp: canEnter_def split: if_splits)

lemma vehicleEntry_parked_slot:
  assumes "sys_inv s" "fst (vehicleEntry inp now alloc s) = Entry_parked slot t"
  shows "slot = Min (free_slots (slotToCar s))" and "slot \<in> free_slots (slotToCar s)"
    and "t = now"
proof -
  obtain car where inp: "inp = Some car"
    using assms(2) by (cases inp) (auto simp: vehicleEntry_def)
  have ce: "canEnter car s = None"
  proof (cases "canEnter car s")
    case None
    then show ?thesis .
  next
    case (Some r)
    then show ?thesis
      using assms(2) canEnter_refusal[OF Some] vehicleEntry_refused[OF Some, of now alloc]
      by (auto simp: inp)
  qed
  note i = sys_invD[OF assms(1)] and c = canEnter_None[OF assms(1) ce]
  have pos: "0 < heapSize (heap s)"
  proof (rule ccontr)
    assume "\<not> 0 < heapSize (heap s)"
    then have hz: "heapSize (heap s) = 0" by simp
    show False
    proof (cases "waitCount (waitq s) = WAIT_CAP")
      case True
      then show False using assms(2) vehicleEntry_full[OF ce hz True, of now alloc] by (simp add: inp)
    next
      case False
      then have lt: "waitCount (waitq s) < WAIT_CAP" using i(7) by (simp add: queue_ok_def)
      show False using assms(2) vehicleEntry_waits[OF assms(1) ce hz lt, of now alloc] by (simp add: inp)
    qed
  qed
  note p = vehicleEntry_parks[OF assms(1) ce pos, of now alloc]
  show "slot = Min (free_slots (slotToCar s))" "t = now"
    using assms(2) p by (simp_all add: inp)
  then show "slot \<in> free_slots (slotToCar s)"
    using heap_take(1,2)[OF i(4,5,6) pos occupancy_len(2)[OF i(1)] c(1)] by simp
qed

lemma vehicleEntry_parked_car:
  assumes "sys_inv s" "fst (vehicleEntry inp now alloc s) = Entry_parked slot t"
  shows "\<exists>car. inp = Some car \<and> canEnter car s = None \<and> 0 < heapSize (heap s)"
proof -
  obtain car where inp: "inp = Some car"
    using assms(2) by (cases inp) (auto simp: vehicleEntry_def)
  have ce: "canEnter car s = None"
  proof (cases "canEnter car s")
    case None
    then show ?thesis .
  next
    case (Some r)
    then show ?thesis
      using assms(2) canEnter_refusal[OF Some] vehicleEntry_refused[OF Some, of now alloc]
      by (auto simp: inp)
  qed
  note i = sys_invD[OF assms(1)]
  have pos: "0 < heapSize (heap s)"
  proof (rule ccontr)
    assume "\<not> 0 < heapSize (heap s)"
    then have hz: "heapSize (heap s) = 0" by simp
    show False
    proof (cases "waitCount (waitq s) = WAIT_CAP")
      case True
      then show False using assms(2) vehicleEntry_full[OF ce hz True, of now alloc] by (simp add: inp)
    next
      case False
      then have lt: "waitCount (waitq s) < WAIT_CAP" using i(7) by (simp add: queue_ok_def)
      show False using assms(2) vehicleEntry_waits[OF assms(1) ce hz lt, of now alloc] by (simp add: inp)
    qed
  qed
  show ?thesis using inp ce pos by simp
qed

lemma vehicleEntry_parked_state:
  assumes "sys_inv s" "canEnter car s = None" "0 < heapSize (heap s)"
    and s'_def: "s' = snd (vehicleEntry (Some car) now alloc s)"
    and m_def: "m = Min (free_slots (slotToCar s))"
  shows "fst (vehicleEntry (Some car) now alloc s) = Entry_parked m now"
    and "slotOfCar s' = (slotOfCar s)[nat car := m]"
    and "slotToCar s' = (slotToCar s)[nat m := car]"
    and "entryTimeOfCar s' = (entryTimeOfCar s)[nat car := now]"
    and "heap s' = snd (heapRemoveMin (heap s))"
    and "waitq s' = waitq s" and "passUser s' = passUser s" and "totalRevenue s' = totalRevenue s"
    and "slotOfCar s' ! nat car = m"
    and "slotToCar s' ! nat m = car"
    and "free_slots (slotToCar s') = free_slots (slotToCar s) - {m}"
    and "set (heap_list (heap s')) = free_slots (slotToCar s) - {m}"
    and "heapSize (heap s') = heapSize (heap s) - 1"
proof -
  note i = sys_invD[OF assms(1)] and c = canEnter_None[OF assms(1,2)]
  note p = vehicleEntry_parks[OF assms(1,2,3), of now alloc]
  note t = heap_take[OF i(4,5,6) assms(3) occupancy_len(2)[OF i(1)] c(1)]
  have mr: "1 \<le> m" "m \<le> 10" using free_slots_range[OF t(2)] t(1) by (simp_all add: m_def)
  show "fst (vehicleEntry (Some car) now alloc s) = Entry_parked m now" using p by (simp add: m_def)
  show a: "slotOfCar s' = (slotOfCar s)[nat car := m]"
    and b: "slotToCar s' = (slotToCar s)[nat m := car]"
    and "entryTimeOfCar s' = (entryTimeOfCar s)[nat car := now]"
    and h: "heap s' = snd (heapRemoveMin (heap s))"
    and "waitq s' = waitq s" and "passUser s' = passUser s" and "totalRevenue s' = totalRevenue s"
    using p by (simp_all add: s'_def m_def addHistoryNode_def)
  show "slotOfCar s' ! nat car = m"
    using a c occupancy_len(1)[OF i(1)] by simp
  show "slotToCar s' ! nat m = car"
    using b mr occupancy_len(2)[OF i(1)] by simp
  show f: "free_slots (slotToCar s') = free_slots (slotToCar s) - {m}"
    using free_slots_take[OF occupancy_len(2)[OF i(1)] _ c(1), of "nat m"] mr b by simp
  show "set (heap_list (heap s')) = free_slots (slotToCar s) - {m}"
    using t(5) t(1) h b f by (simp add: m_def)
  show "heapSize (heap s') = heapSize (heap s) - 1" using t(6) h by simp
qed

lemma vehicleEntry_waiting_back:
  assumes "sys_inv s" "fst (vehicleEntry (Some car) now alloc s) = Entry_waiting k"
  shows "queue_list (waitq (snd (vehicleEntry (Some car) now alloc s))) = queue_list (waitq s) @ [car]"
    and "k = Suc (waitCount (waitq s))"
proof -
  have ce: "canEnter car s = None"
  proof (cases "canEnter car s")
    case None
    then show ?thesis .
  next
    case (Some r)
    then show ?thesis
      using assms(2) canEnter_refusal[OF Some] vehicleEntry_refused[OF Some, of now alloc]
      by auto
  qed
  note i = sys_invD[OF assms(1)]
  have hz: "heapSize (heap s) = 0"
  proof (rule ccontr)
    assume "heapSize (heap s) \<noteq> 0"
    then have "0 < heapSize (heap s)" by simp
    from vehicleEntry_parks[OF assms(1) ce this, of now alloc] assms(2) show False by simp
  qed
  have lt: "waitCount (waitq s) < WAIT_CAP"
  proof (rule ccontr)
    assume "\<not> waitCount (waitq s) < WAIT_CAP"
    then have "waitCount (waitq s) = WAIT_CAP" using i(7) by (simp add: queue_ok_def)
    from vehicleEntry_full[OF ce hz this, of now alloc] assms(2) show False by simp
  qed
  note w = vehicleEntry_waits[OF assms(1) ce hz lt, of now alloc]
  note e = enqueueWait_ok[OF i(7) lt, of car]
  show "queue_list (waitq (snd (vehicleEntry (Some car) now alloc s))) = queue_list (waitq s) @ [car]"
    unfolding w using e(3) by simp
  show "k = Suc (waitCount (waitq s))" using assms(2) unfolding w by simp
qed

subsection \<open>Exit keeps the invariant\<close>

lemma waiting_carsD: "c \<in> waiting_cars soc \<Longrightarrow> 0 \<le> c \<and> c < 100 \<and> soc ! nat c = - 2"
  by (simp add: waiting_cars_def)

lemma waiting_in_queue:
  assumes "sys_inv s" "0 \<le> car" "car < int MAX_CARS" "slotOfCar s ! nat car = - 2"
  shows "car \<in> set (queue_list (waitq s))"
  using assms sys_invD(9)[OF assms(1)] by (simp add: waiting_cars_def)

lemma vehicleExit_waiting:
  assumes "sys_inv s" "0 \<le> car" "car < int MAX_CARS" "slotOfCar s ! nat car = - 2"
  shows "fst (vehicleExit (Some car) now now2 alloc s) = Exit_removed_from_waiting"
    and "snd (vehicleExit (Some car) now now2 alloc s) =
         s\<lparr>waitq := waitq (snd (vehicleExit (Some car) now now2 alloc s)),
           slotOfCar := (slotOfCar s)[nat car := - 1]\<rparr>"
    and "queue_ok (waitq (snd (vehicleExit (Some car) now now2 alloc s)))"
    and "queue_list (waitq (snd (vehicleExit (Some car) now now2 alloc s))) =
         filter (\<lambda>w. w \<noteq> car) (queue_list (waitq s))"
proof -
  note i = sys_invD[OF assms(1)]
  define r where "r = drain_queue (waitCount (waitq s)) car s [] False"
  define l where "l = queue_list (waitq s)"
  have mem: "car \<in> set l" unfolding l_def by (rule waiting_in_queue[OF assms])
  have tk: "take (waitCount (waitq s)) l = l" "drop (waitCount (waitq s)) l = []"
    by (simp_all add: l_def)
  have d: "queue_ok (waitq (fst r))" "queue_list (waitq (fst r)) = []"
    "fst (snd r) = filter (\<lambda>w. w \<noteq> car) l" "snd (snd r) = True"
    "slotOfCar (fst r) = (slotOfCar s)[nat car := - 1]"
    using drain_queue_ok[OF i(7) le_refl, of car "[]" False] mem
    unfolding r_def[symmetric] l_def[symmetric] Let_def tk by simp_all
  have fr: "fst r = s\<lparr>waitq := waitq (fst r), slotOfCar := slotOfCar (fst r)\<rparr>"
    unfolding r_def by (rule drain_queue_frame)
  have wc0: "waitCount (waitq (fst r)) = 0"
    using d(2) length_queue_list[of "waitq (fst r)"] by (simp del: length_queue_list)
  have "length (filter (\<lambda>w. w \<noteq> car) l) \<le> waitCount (waitq s)"
    using length_filter_le[of _ l] by (simp add: l_def)
  then have cap: "waitCount (waitq (fst r)) + length (fst (snd r)) \<le> WAIT_CAP"
    using wc0 d(3) i(7) by (simp add: queue_ok_def)
  note f = refill_queue_ok[OF d(1) cap]
  have ex: "vehicleExit (Some car) now now2 alloc s =
      (Exit_removed_from_waiting, refill_queue (fst (snd r)) (fst r))"
    unfolding vehicleExit_def using assms(2,3,4) d(4)
    by (simp add: r_def[symmetric] case_prod_beta Let_def)
  show "fst (vehicleExit (Some car) now now2 alloc s) = Exit_removed_from_waiting"
    by (simp add: ex)
  show "queue_ok (waitq (snd (vehicleExit (Some car) now now2 alloc s)))"
    using f by (simp add: ex)
  show "queue_list (waitq (snd (vehicleExit (Some car) now now2 alloc s))) =
         filter (\<lambda>w. w \<noteq> car) (queue_list (waitq s))"
    using f d(2,3) by (simp add: ex l_def)
  have "refill_queue (fst (snd r)) (fst r) =
        (fst r)\<lparr>waitq := waitq (refill_queue (fst (snd r)) (fst r))\<rparr>"
    by (rule refill_queue_frame)
  also have "\<dots> = s\<lparr>waitq := waitq (refill_queue (fst (snd r)) (fst r)),
                        slotOfCar := (slotOfCar s)[nat car := - 1]\<rparr>"
    by (subst fr) (simp add: d(5))
  finally show "snd (vehicleExit (Some car) now now2 alloc s) =
         s\<lparr>waitq := waitq (snd (vehicleExit (Some car) now now2 alloc s)),
           slotOfCar := (slotOfCar s)[nat car := - 1]\<rparr>"
    by (simp add: ex)
qed

lemma sys_inv_exit_waiting:
  assumes "sys_inv s" "0 \<le> car" "car < int MAX_CARS" "slotOfCar s ! nat car = - 2"
  shows "sys_inv (snd (vehicleExit (Some car) now now2 alloc s))"
proof -
  note i = sys_invD[OF assms(1)]
  note x = vehicleExit_waiting[OF assms, of now now2 alloc]
  define s' where "s' = snd (vehicleExit (Some car) now now2 alloc s)"
  have cn: "nat car < MAX_CARS" "int (nat car) = car" using assms by auto
  have o: "occupancy_ok ((slotOfCar s)[nat car := - 1]) (slotToCar s)"
    using occupancy_mark[OF i(1) cn(1), of "- 1"] assms(4) by simp
  have w: "waiting_cars ((slotOfCar s)[nat car := - 1]) = waiting_cars (slotOfCar s) - {car}"
    using waiting_cars_update[OF occupancy_len(1)[OF i(1)] cn(1), of "- 1"] cn(2) by simp
  have fields: "slotOfCar s' = (slotOfCar s)[nat car := - 1]" "slotToCar s' = slotToCar s"
    "heap s' = heap s" "entryTimeOfCar s' = entryTimeOfCar s" "passUser s' = passUser s"
    unfolding s'_def by (subst x(2), simp)+
  have q: "queue_ok (waitq s')"
    "queue_list (waitq s') = filter (\<lambda>w. w \<noteq> car) (queue_list (waitq s))"
    using x(3,4) by (simp_all add: s'_def)
  have "0 < waitCount (waitq s') \<Longrightarrow> 0 < waitCount (waitq s)"
    using q(2) length_queue_list[of "waitq s'"] length_queue_list[of "waitq s"]
    by (cases "queue_list (waitq s)") (auto simp del: length_queue_list)
  then have c9: "0 < waitCount (waitq s') \<longrightarrow> heapSize (heap s') = 0"
    using i(10) fields(3) by auto
  have "set (queue_list (waitq s')) = waiting_cars (slotOfCar s')"
    unfolding q(2) fields(1) w using i(9) by auto
  then show ?thesis
    unfolding s'_def[symmetric] sys_inv_def
    using o i q c9 fields by simp
qed

lemma sys_inv_core:
  "sys_inv s = (core_inv s \<and> (0 < waitCount (waitq s) \<longrightarrow> heapSize (heap s) = 0))"
  by (simp add: sys_inv_def core_inv_def)

lemma core_invD:
  assumes "core_inv s"
  shows "occupancy_ok (slotOfCar s) (slotToCar s)"
    and "length (entryTimeOfCar s) = MAX_CARS" and "length (passUser s) = MAX_CARS"
    and "heap_ok (heap s)" and "distinct (heap_list (heap s))"
    and "set (heap_list (heap s)) = free_slots (slotToCar s)"
    and "queue_ok (waitq s)" and "distinct (queue_list (waitq s))"
    and "set (queue_list (waitq s)) = waiting_cars (slotOfCar s)"
  using assms unfolding core_inv_def by simp_all

lemma parked_car:
  assumes "sys_inv s" "0 \<le> car" "car < int MAX_CARS"
    "slotOfCar s ! nat car \<noteq> - 1" "slotOfCar s ! nat car \<noteq> - 2"
  shows "1 \<le> slotOfCar s ! nat car" and "slotOfCar s ! nat car \<le> int MAX_SLOTS"
    and "slotToCar s ! nat (slotOfCar s ! nat car) = car"
proof -
  have cn: "nat car < MAX_CARS" "int (nat car) = car" using assms by auto
  note p = occupancy_car[OF sys_invD(1)[OF assms(1)] cn(1) assms(4,5)]
  show "1 \<le> slotOfCar s ! nat car" "slotOfCar s ! nat car \<le> int MAX_SLOTS"
    "slotToCar s ! nat (slotOfCar s ! nat car) = car"
    using p cn(2) by simp_all
qed

lemma release_slot_eq:
  "release_slot car now s =
    ((slotOfCar s ! nat car, exit_fee (passUser s ! nat car) now (entryTimeOfCar s ! nat car)),
     s\<lparr>totalRevenue := to_int32 (totalRevenue s +
            exit_fee (passUser s ! nat car) now (entryTimeOfCar s ! nat car)),
       history := close_history car (slotOfCar s ! nat car) now (history s),
       slotOfCar := (slotOfCar s)[nat car := - 1],
       entryTimeOfCar := (entryTimeOfCar s)[nat car := 0],
       slotToCar := (slotToCar s)[nat (slotOfCar s ! nat car) := - 1],
       heap := heapInsert (slotOfCar s ! nat car) (heap s)\<rparr>)"
  by (simp add: release_slot_def Let_def)

lemma release_slot_inv:
  assumes "sys_inv s" "0 \<le> car" "car < int MAX_CARS"
    "slotOfCar s ! nat car \<noteq> - 1" "slotOfCar s ! nat car \<noteq> - 2"
  shows "core_inv (snd (release_slot car now s))"
    and "heapSize (heap (snd (release_slot car now s))) = Suc (heapSize (heap s))"
    and "free_slots (slotToCar (snd (release_slot car now s))) =
         insert (slotOfCar s ! nat car) (free_slots (slotToCar s))"
proof -
  note i = sys_invD[OF assms(1)] and p = parked_car[OF assms]
  define slot where "slot = slotOfCar s ! nat car"
  have cn: "nat car < MAX_CARS" "int (nat car) = car" using assms by auto
  have sn: "1 \<le> nat slot" "nat slot \<le> MAX_SLOTS" "int (nat slot) = slot"
    using p by (auto simp: slot_def)
  have occ: "slotToCar s ! nat slot \<noteq> - 1" using p(3) assms(2) by (simp add: slot_def)
  have o: "occupancy_ok ((slotOfCar s)[nat car := - 1]) ((slotToCar s)[nat slot := - 1])"
    unfolding slot_def by (rule occupancy_release(1)[OF i(1) cn(1) p(1)])
  note g = heap_give[OF i(4,5,6) occupancy_len(2)[OF i(1)] sn(1,2) occ, unfolded sn(3)]
  have w: "waiting_cars ((slotOfCar s)[nat car := - 1]) = waiting_cars (slotOfCar s)"
    using waiting_cars_update[OF occupancy_len(1)[OF i(1)] cn(1), of "- 1"] assms(5) cn(2)
    by (auto simp: waiting_cars_def)
  show "core_inv (snd (release_slot car now s))"
    unfolding release_slot_eq slot_def[symmetric] core_inv_def
    using o g w i by simp
  show "heapSize (heap (snd (release_slot car now s))) = Suc (heapSize (heap s))"
    unfolding release_slot_eq slot_def[symmetric] using g(5) by simp
  show "free_slots (slotToCar (snd (release_slot car now s))) =
         insert (slotOfCar s ! nat car) (free_slots (slotToCar s))"
    unfolding release_slot_eq slot_def[symmetric]
    using free_slots_give[OF occupancy_len(2)[OF i(1)] sn(1,2)] sn(3) by simp
qed

lemma promote_waiting_none:
  "waitCount (waitq s) = 0 \<Longrightarrow> promote_waiting now2 alloc s = (None, s)"
  by (simp add: promote_waiting_def)

lemma promote_waiting_some:
  assumes "core_inv s" "0 < waitCount (waitq s)" "0 < heapSize (heap s)"
  shows "promote_waiting now2 alloc s =
    (Some (Min (free_slots (slotToCar s)), hd (queue_list (waitq s))),
     addHistoryNode alloc (hd (queue_list (waitq s))) (Min (free_slots (slotToCar s))) now2 0
       (s\<lparr>waitq := snd (dequeueWait (waitq s)),
          heap := snd (heapRemoveMin (heap s)),
          slotOfCar := (slotOfCar s)[nat (hd (queue_list (waitq s))) := Min (free_slots (slotToCar s))],
          entryTimeOfCar := (entryTimeOfCar s)[nat (hd (queue_list (waitq s))) := now2],
          slotToCar := (slotToCar s)[nat (Min (free_slots (slotToCar s))) := hd (queue_list (waitq s))]\<rparr>))"
    and "core_inv (snd (promote_waiting now2 alloc s))"
    and "heapSize (heap (snd (promote_waiting now2 alloc s))) = heapSize (heap s) - 1"
    and "queue_list (waitq (snd (promote_waiting now2 alloc s))) = tl (queue_list (waitq s))"
proof -
  note i = core_invD[OF assms(1)]
  note dq = dequeueWait_ok[OF i(7) assms(2)]
  define nxt where "nxt = hd (queue_list (waitq s))"
  define slot where "slot = Min (free_slots (slotToCar s))"
  have "length (queue_list (waitq s)) \<noteq> 0" using assms(2) by simp
  then have ne: "queue_list (waitq s) \<noteq> []" by (simp del: length_queue_list)
  then have "nxt \<in> set (queue_list (waitq s))" by (simp add: nxt_def)
  then have nw: "nxt \<in> waiting_cars (slotOfCar s)" using i(9) by simp
  note n = waiting_carsD[OF nw]
  have cn: "nat nxt < MAX_CARS" "int (nat nxt) = nxt" using n by auto
  have n0: "0 \<le> nxt" using n by simp
  note t = heap_take[OF i(4,5,6) assms(3) occupancy_len(2)[OF i(1)] n0]
  have sl: "1 \<le> slot" "slot \<le> 10" "slotToCar s ! nat slot = - 1"
    using free_slots_range[OF t(2)] t(1) by (auto simp: slot_def)
  then have sn: "1 \<le> nat slot" "nat slot \<le> MAX_SLOTS" "int (nat slot) = slot" by auto
  have f1: "fst (dequeueWait (waitq s)) = nxt" using dq(1) by (simp add: nxt_def)
  have f2: "fst (heapRemoveMin (heap s)) = slot" using t(1) by (simp add: slot_def)
  show eq: "promote_waiting now2 alloc s =
    (Some (Min (free_slots (slotToCar s)), hd (queue_list (waitq s))),
     addHistoryNode alloc (hd (queue_list (waitq s))) (Min (free_slots (slotToCar s))) now2 0
       (s\<lparr>waitq := snd (dequeueWait (waitq s)),
          heap := snd (heapRemoveMin (heap s)),
          slotOfCar := (slotOfCar s)[nat (hd (queue_list (waitq s))) := Min (free_slots (slotToCar s))],
          entryTimeOfCar := (entryTimeOfCar s)[nat (hd (queue_list (waitq s))) := now2],
          slotToCar := (slotToCar s)[nat (Min (free_slots (slotToCar s))) := hd (queue_list (waitq s))]\<rparr>))"
    unfolding promote_waiting_def nxt_def[symmetric] slot_def[symmetric]
    using assms(2) f1 f2 n sl
    by (simp add: case_prod_beta Let_def)
  have o: "occupancy_ok ((slotOfCar s)[nat nxt := slot]) ((slotToCar s)[nat slot := nxt])"
    using occupancy_assign[OF i(1) cn(1) _ sn(1,2) sl(3)] n cn(2) sn(3) by simp
  have w: "waiting_cars ((slotOfCar s)[nat nxt := slot]) = waiting_cars (slotOfCar s) - {nxt}"
    using waiting_cars_update[OF occupancy_len(1)[OF i(1)] cn(1), of slot] sl cn(2) by auto
  have l: "queue_list (waitq s) = nxt # queue_list (snd (dequeueWait (waitq s)))"
    using ne dq(3) by (cases "queue_list (waitq s)") (auto simp: nxt_def)
  have d: "distinct (queue_list (snd (dequeueWait (waitq s))))"
    "set (queue_list (snd (dequeueWait (waitq s)))) = waiting_cars (slotOfCar s) - {nxt}"
    using i(8,9) unfolding l by auto
  show "core_inv (snd (promote_waiting now2 alloc s))"
    unfolding eq nxt_def[symmetric] slot_def[symmetric] core_inv_def
    using o w d dq(2) i t[unfolded f2]
    by (simp add: addHistoryNode_def)
  show "heapSize (heap (snd (promote_waiting now2 alloc s))) = heapSize (heap s) - 1"
    unfolding eq using t(6) by (simp add: addHistoryNode_def)
  show "queue_list (waitq (snd (promote_waiting now2 alloc s))) = tl (queue_list (waitq s))"
    unfolding eq using dq(3) by (simp add: addHistoryNode_def)
qed

lemma vehicleExit_parked:
  assumes "0 \<le> car" "car < int MAX_CARS"
    "slotOfCar s ! nat car \<noteq> - 1" "slotOfCar s ! nat car \<noteq> - 2"
  shows "vehicleExit (Some car) now now2 alloc s =
    (Exited (fst (fst (release_slot car now s))) (snd (fst (release_slot car now s)))
        (fst (promote_waiting now2 alloc (snd (release_slot car now s)))),
     snd (promote_waiting now2 alloc (snd (release_slot car now s))))"
  unfolding vehicleExit_def using assms by (simp add: case_prod_beta Let_def)

lemma vehicleExit_rejected:
  "vehicleExit None now now2 alloc s = (Exit_invalid_input, s)"
  "car < 0 \<or> int MAX_CARS \<le> car \<Longrightarrow> vehicleExit (Some car) now now2 alloc s = (Exit_invalid_id, s)"
  "0 \<le> car \<Longrightarrow> car < int MAX_CARS \<Longrightarrow> slotOfCar s ! nat car = - 1 \<Longrightarrow>
     vehicleExit (Some car) now now2 alloc s = (Exit_not_parked, s)"
  unfolding vehicleExit_def by auto

lemma sys_inv_exit_parked:
  assumes "sys_inv s" "0 \<le> car" "car < int MAX_CARS"
    "slotOfCar s ! nat car \<noteq> - 1" "slotOfCar s ! nat car \<noteq> - 2"
  shows "sys_inv (snd (vehicleExit (Some car) now now2 alloc s))"
proof -
  define s1 where "s1 = snd (release_slot car now s)"
  note r = release_slot_inv[OF assms, of now, folded s1_def]
  have wq: "waitq s1 = waitq s" by (simp add: s1_def release_slot_eq)
  have ex: "snd (vehicleExit (Some car) now now2 alloc s) = snd (promote_waiting now2 alloc s1)"
    by (simp add: vehicleExit_parked[OF assms(2-5)] s1_def)
  show ?thesis
  proof (cases "waitCount (waitq s) = 0")
    case True
    then have "promote_waiting now2 alloc s1 = (None, s1)"
      using promote_waiting_none[of s1] wq by simp
    then show ?thesis unfolding ex using r(1) True wq by (simp add: sys_inv_core)
  next
    case False
    then have pos: "0 < waitCount (waitq s1)" using wq by simp
    have h0: "heapSize (heap s) = 0" using sys_invD(10)[OF assms(1)] False by simp
    then have h1: "0 < heapSize (heap s1)" "heapSize (heap s1) = 1" using r(2) by simp_all
    note p = promote_waiting_some[OF r(1) pos h1(1), of now2 alloc]
    show ?thesis unfolding ex sys_inv_core using p(2,3) h1(2) by simp
  qed
qed

lemma sys_inv_vehicleExit:
  assumes "sys_inv s"
  shows "sys_inv (snd (vehicleExit inp now now2 alloc s))"
proof (cases inp)
  case None
  then show ?thesis using assms by (simp add: vehicleExit_rejected)
next
  case (Some car)
  consider "car < 0 \<or> int MAX_CARS \<le> car"
    | "0 \<le> car" "car < int MAX_CARS" "slotOfCar s ! nat car = - 1"
    | "0 \<le> car" "car < int MAX_CARS" "slotOfCar s ! nat car = - 2"
    | "0 \<le> car" "car < int MAX_CARS" "slotOfCar s ! nat car \<noteq> - 1" "slotOfCar s ! nat car \<noteq> - 2"
    by linarith
  then show ?thesis
  proof cases
    case 1
    then show ?thesis unfolding Some using assms vehicleExit_rejected(2)[of car] by simp
  next
    case 2
    then show ?thesis unfolding Some using assms vehicleExit_rejected(3)[of car s] by simp
  next
    case 3
    then show ?thesis unfolding Some using sys_inv_exit_waiting[OF assms] by simp
  next
    case 4
    then show ?thesis unfolding Some using sys_inv_exit_parked[OF assms] by simp
  qed
qed

lemma sys_inv_addMonthlyPass:
  assumes "sys_inv s"
  shows "sys_inv (snd (addMonthlyPass car s))"
  using assms unfolding addMonthlyPass_def sys_inv_def by simp

lemma sys_inv_step:
  assumes "sys_inv s"
  shows "sys_inv (step c s)"
proof (cases c)
  case (Entry inp now alloc)
  then show ?thesis using sys_inv_vehicleEntry[OF assms] by simp
next
  case (Exit inp now now2 alloc)
  then show ?thesis using sys_inv_vehicleExit[OF assms] by simp
next
  case (Add_pass car)
  then show ?thesis using sys_inv_addMonthlyPass[OF assms] by simp
next
  case Emergency
  then show ?thesis using sys_inv_emergencyMode[OF sys_inv_arrays_ok[OF assms]] by simp
next
  case Query
  then show ?thesis using assms by simp
qed

lemma reachable_sys_inv: "reachable s \<Longrightarrow> sys_inv s"
proof (induction rule: reachable.induct)
  case reachable_init
  show ?case by (rule sys_inv_initSystem[OF arrays_ok_zero_state])
next
  case (reachable_step s c)
  then show ?case by (simp add: sys_inv_step)
qed

lemma reachable_run: "reachable s \<Longrightarrow> reachable (run cs s)"
  unfolding run_def by (induction cs arbitrary: s) (auto intro: reachable_step)

text \<open>
  The bounds of the indices in a reachable state: every access of the program to an array
  is within the array.
\<close>

lemma reachable_bounds:
  assumes "reachable s"
  shows "arrays_ok s"
    and "heapSize (heap s) \<le> MAX_SLOTS"
    and "waitCount (waitq s) \<le> WAIT_CAP" and "waitFront (waitq s) < WAIT_CAP"
    and "- 1 \<le> waitRear (waitq s)" and "waitRear (waitq s) < int WAIT_CAP"
    and "\<forall>c \<in> set (queue_list (waitq s)). 0 \<le> c \<and> c < int MAX_CARS"
    and "\<forall>v \<in> set (heap_list (heap s)). 1 \<le> v \<and> v \<le> int MAX_SLOTS"
    and "\<forall>c < MAX_CARS. 1 \<le> slotOfCar s ! c \<longrightarrow> slotOfCar s ! c \<le> int MAX_SLOTS"
    and "\<forall>v. 1 \<le> v \<and> v \<le> MAX_SLOTS \<longrightarrow> - 1 \<le> slotToCar s ! v \<and> slotToCar s ! v < int MAX_CARS"
proof -
  have i: "sys_inv s" by (rule reachable_sys_inv[OF assms])
  note d = sys_invD[OF i]
  show "arrays_ok s" by (rule sys_inv_arrays_ok[OF i])
  show "heapSize (heap s) \<le> MAX_SLOTS" using d(4) by (simp add: heap_ok_def)
  show "waitCount (waitq s) \<le> WAIT_CAP" "waitFront (waitq s) < WAIT_CAP"
    using d(7) by (simp_all add: queue_ok_def)
  show "- 1 \<le> waitRear (waitq s)" "waitRear (waitq s) < int WAIT_CAP"
    using d(7) by (auto simp: queue_ok_def split: if_splits)
  show "\<forall>c \<in> set (queue_list (waitq s)). 0 \<le> c \<and> c < int MAX_CARS"
    unfolding d(9) by (simp add: waiting_cars_def)
  show "\<forall>v \<in> set (heap_list (heap s)). 1 \<le> v \<and> v \<le> int MAX_SLOTS"
    unfolding d(6) by (simp add: free_slots_def)
  show "\<forall>c < MAX_CARS. 1 \<le> slotOfCar s ! c \<longrightarrow> slotOfCar s ! c \<le> int MAX_SLOTS"
    using occupancy_car(2)[OF d(1)] by auto
  show "\<forall>v. 1 \<le> v \<and> v \<le> MAX_SLOTS \<longrightarrow> - 1 \<le> slotToCar s ! v \<and> slotToCar s ! v < int MAX_CARS"
  proof (intro allI impI)
    fix v :: nat assume v: "1 \<le> v \<and> v \<le> MAX_SLOTS"
    show "- 1 \<le> slotToCar s ! v \<and> slotToCar s ! v < int MAX_CARS"
    proof (cases "slotToCar s ! v = - 1")
      case True
      then show ?thesis by simp
    next
      case False
      from occupancy_slot(1,2)[OF d(1) _ _ False] v show ?thesis by simp
    qed
  qed
qed

subsection \<open>The pass flags\<close>

lemma passUser_refill_queue [simp]: "passUser (refill_queue tmp s) = passUser s"
  by (subst refill_queue_frame) simp

lemma passUser_drain_queue [simp]:
  "passUser (fst (drain_queue n car s tmp removed)) = passUser s"
  by (subst drain_queue_frame) simp

lemma passUser_vehicleEntry: "passUser (snd (vehicleEntry inp now alloc s)) = passUser s"
  unfolding vehicleEntry_def
  by (simp add: case_prod_beta Let_def addHistoryNode_def split: option.splits)

lemma passUser_promote_waiting: "passUser (snd (promote_waiting now2 alloc s)) = passUser s"
  unfolding promote_waiting_def
  by (simp add: case_prod_beta Let_def addHistoryNode_def)

lemma passUser_vehicleExit: "passUser (snd (vehicleExit inp now now2 alloc s)) = passUser s"
  unfolding vehicleExit_def
  by (simp add: case_prod_beta Let_def passUser_promote_waiting release_slot_eq
      split: option.splits)

lemma pass_flag_stays:
  "xs ! k \<noteq> 0 \<Longrightarrow> (xs[i := 1 :: int]) ! k \<noteq> 0"
  by (cases "i < length xs") (simp_all add: nth_list_update list_update_beyond)

lemma pass_kept_step:
  "passUser s ! k \<noteq> 0 \<Longrightarrow> passUser (step c s) ! k \<noteq> 0"
  by (cases c)
     (simp_all add: passUser_vehicleEntry passUser_vehicleExit emergencyMode_frame
        addMonthlyPass_def pass_flag_stays)

lemma pass_kept_run:
  "passUser s ! k \<noteq> 0 \<Longrightarrow> passUser (run cs s) ! k \<noteq> 0"
  unfolding run_def by (induction cs arbitrary: s) (simp_all add: pass_kept_step)

lemma vehicleExit_exited:
  assumes "fst (vehicleExit inp now now2 alloc s) = Exited slot fee p"
  shows "\<exists>car. inp = Some car \<and> slot = slotOfCar s ! nat car \<and>
           fee = exit_fee (passUser s ! nat car) now (entryTimeOfCar s ! nat car)"
  using assms unfolding vehicleExit_def
  by (auto simp: case_prod_beta Let_def release_slot_eq split: option.splits if_splits)

lemma exit_fee_pass: "pass \<noteq> 0 \<Longrightarrow> exit_fee pass now entry = 0"
  by (simp add: exit_fee_def Let_def)

subsection \<open>The fee\<close>

lemma to_int32_id: "int32_range x \<Longrightarrow> to_int32 x = x"
  by (simp add: to_int32_def int32_range_def)

text \<open>The conversion to \<open>double\<close> keeps an integer below \<open>2 ^ 53\<close> and the sign of every integer.\<close>

lemma to_double_exact: "\<bar>x\<bar> < 2 ^ 53 \<Longrightarrow> to_double x = x"
  by (simp add: to_double_def)

lemma to_double_parts:
  assumes "2 ^ 53 \<le> \<bar>x\<bar>"
  defines "e \<equiv> nat (bitlen \<bar>x\<bar>) - 53"
  shows "1 \<le> e" and "2 ^ 52 \<le> \<bar>x\<bar> div 2 ^ e" and "\<bar>x\<bar> div 2 ^ e < 2 ^ 53"
proof -
  define a where "a = \<bar>x\<bar>"
  define n where "n = nat (bitlen a)"
  have a0: "0 < a" using assms(1) by (simp add: a_def)
  note bb = bitlen_bounds[OF a0]
  have b2: "a < 2 ^ n" using bb by (simp add: n_def)
  have "(2::int) ^ 53 < 2 ^ n" using assms(1) b2 by (simp add: a_def)
  then have n: "53 < n" by (simp only: power_strict_increasing_iff)
  then have "nat (bitlen a - 1) = n - 1" by (simp add: n_def nat_diff_distrib)
  then have b1: "2 ^ (n - 1) \<le> a" using bb by simp
  have e: "e = n - 53" by (simp add: e_def n_def a_def)
  show "1 \<le> e" using n e by simp
  have s: "n = e + 53" and s1: "n - 1 = e + 52" using n e by simp_all
  have "(2::int) ^ e * 2 ^ 52 \<le> a" using b1 unfolding s1 by (simp only: power_add)
  then have "(2::int) ^ e * 2 ^ 52 div 2 ^ e \<le> a div 2 ^ e" by (rule zdiv_mono1) simp
  then have "2 ^ 52 \<le> a div 2 ^ e" by simp
  then show "2 ^ 52 \<le> \<bar>x\<bar> div 2 ^ e" by (simp add: a_def)
  have lt: "a < 2 ^ 53 * 2 ^ e" using b2 unfolding s by (simp only: power_add mult.commute)
  have le: "a div 2 ^ e * 2 ^ e \<le> a"
    by (simp add: minus_mod_eq_div_mult[symmetric])
  from le lt have "a div 2 ^ e * 2 ^ e < 2 ^ 53 * 2 ^ e" by (rule le_less_trans)
  then have "a div 2 ^ e < 2 ^ 53" by (simp only: mult_less_cancel_right) simp
  then show "\<bar>x\<bar> div 2 ^ e < 2 ^ 53" by (simp add: a_def)
qed

lemma to_double_rounded:
  assumes "2 ^ 53 \<le> \<bar>x\<bar>"
  shows "\<exists>q. 2 ^ 52 \<le> q \<and> to_double x = sgn x * (q * 2 ^ (nat (bitlen \<bar>x\<bar>) - 53))"
proof -
  define e where "e = nat (bitlen \<bar>x\<bar>) - 53"
  define q where "q = \<bar>x\<bar> div 2 ^ e"
  define r where "r = \<bar>x\<bar> mod 2 ^ e"
  define q' where "q' = (if 2 ^ (e - 1) < r \<or> (r = 2 ^ (e - 1) \<and> odd q) then q + 1 else q)"
  have t: "to_double x = sgn x * (q' * 2 ^ e)"
    using assms unfolding to_double_def Let_def q'_def q_def r_def e_def by simp
  have "2 ^ 52 \<le> q" unfolding q_def e_def by (rule to_double_parts(2)[OF assms])
  then have "2 ^ 52 \<le> q'" by (simp add: q'_def)
  then show ?thesis using t unfolding e_def by blast
qed

lemma to_double_sign:
  shows "x < 0 \<Longrightarrow> to_double x < 0" and "0 \<le> x \<Longrightarrow> 0 \<le> to_double x"
proof -
  have p: "0 < q * (2::int) ^ e" if "2 ^ 52 \<le> q" for q :: int and e :: nat
    using that by (simp add: zero_less_mult_iff)
  {
    assume x: "x < 0"
    show "to_double x < 0"
    proof (cases "\<bar>x\<bar> < 2 ^ 53")
      case True
      then show ?thesis using x by (simp add: to_double_exact)
    next
      case False
      then have "2 ^ 53 \<le> \<bar>x\<bar>" by simp
      from to_double_rounded[OF this] obtain q where
        q: "2 ^ 52 \<le> q" "to_double x = sgn x * (q * 2 ^ (nat (bitlen \<bar>x\<bar>) - 53))" by blast
      show ?thesis unfolding q(2) using x p[OF q(1)] by simp
    qed
  }
  assume x: "0 \<le> x"
  show "0 \<le> to_double x"
  proof (cases "\<bar>x\<bar> < 2 ^ 53")
    case True
    then show ?thesis using x by (simp add: to_double_exact)
  next
    case False
    then have "2 ^ 53 \<le> \<bar>x\<bar>" by simp
    from to_double_rounded[OF this] obtain q where
      q: "2 ^ 52 \<le> q" "to_double x = sgn x * (q * 2 ^ (nat (bitlen \<bar>x\<bar>) - 53))" by blast
    have "0 \<le> q * 2 ^ (nat (bitlen \<bar>x\<bar>) - 53)" using p[OF q(1)] by (rule less_imp_le)
    then show ?thesis unfolding q(2) using x by (simp add: sgn_if)
  qed
qed

text \<open>
  The rounded value is a multiple of the unit in the last place, and at most half a unit
  away from the integer.
\<close>

lemma to_double_nearest:
  assumes "2 ^ 53 \<le> \<bar>x\<bar>"
  defines "e \<equiv> nat (bitlen \<bar>x\<bar>) - 53"
  shows "2 ^ e dvd to_double x" and "2 * \<bar>to_double x - x\<bar> \<le> 2 ^ e"
proof -
  define a where "a = \<bar>x\<bar>"
  define q where "q = a div 2 ^ e"
  define r where "r = a mod 2 ^ e"
  define q' where "q' = (if 2 ^ (e - 1) < r \<or> (r = 2 ^ (e - 1) \<and> odd q) then q + 1 else q)"
  have t: "to_double x = sgn x * (q' * 2 ^ e)"
    using assms(1) unfolding to_double_def Let_def q'_def q_def r_def a_def e_def by simp
  show "2 ^ e dvd to_double x" unfolding t by simp
  have e1: "1 \<le> e" unfolding e_def by (rule to_double_parts(1)[OF assms(1)])
  then have h: "(2::int) ^ e = 2 * 2 ^ (e - 1)" by (cases e) simp_all
  have a: "a = q * 2 ^ e + r" unfolding q_def r_def by (rule div_mult_mod_eq[symmetric])
  have r: "0 \<le> r" "r < 2 ^ e" by (simp_all add: r_def)
  have x: "x = sgn x * a" by (simp add: a_def sgn_if)
  have "to_double x - x = sgn x * (q' * 2 ^ e - a)"
    unfolding t using x by (simp add: algebra_simps)
  moreover have "x \<noteq> 0" using assms(1) by auto
  ultimately have "\<bar>to_double x - x\<bar> = \<bar>q' * 2 ^ e - a\<bar>"
    by (simp add: abs_mult sgn_if)
  also have "2 * \<dots> \<le> 2 ^ e"
    using r unfolding a q'_def h by (auto simp: algebra_simps)
  finally show "2 * \<bar>to_double x - x\<bar> \<le> 2 ^ e" by simp
qed

lemma hours_begun: "- (- e div 3600) = (e + 3599) div (3600 :: int)"
proof -
  define q where "q = e div 3600"
  define r where "r = e mod 3600"
  have e: "e = 3600 * q + r" and r: "0 \<le> r" "r < 3600" by (simp_all add: q_def r_def)
  have l: "- e div 3600 = (if r = 0 then - q else - q - 1)"
    using zdiv_zminus1_eq_if[of 3600 e] by (simp add: q_def r_def)
  have "e + 3599 = 3600 * q + (r + 3599)" using e by simp
  then have "(e + 3599) div 3600 = q + (r + 3599) div 3600"
    by (simp only: div_mult_self4)
  moreover have "(r + 3599) div 3600 = (if r = 0 then 0 else 1)"
  proof (cases "r = 0")
    case True
    then show ?thesis by simp
  next
    case False
    then have "0 \<le> r - 1" "r - 1 < 3600" using r by simp_all
    then have "(r - 1) div 3600 = 0" by simp
    moreover have "r + 3599 = (r - 1) + 3600" by simp
    ultimately have "(r + 3599) div 3600 = 1" by simp
    then show ?thesis using False by simp
  qed
  ultimately show ?thesis using l by simp
qed

lemma ceiling_hours: "\<lceil>real_of_int e / 3600\<rceil> = (e + 3599) div 3600"
proof -
  have "\<lceil>real_of_int e / real_of_int 3600\<rceil> = - (- e div 3600)"
    by (rule ceiling_divide_eq_div)
  then show ?thesis by (simp add: hours_begun)
qed

lemma spec_fee_div:
  "spec_fee pass now entry =
   (if pass \<noteq> 0 then 0 else (max 0 (now - entry) + 3599) div 3600 * 50)"
  by (simp add: spec_fee_def ceiling_hours)

lemma exit_fee_spec:
  assumes "spec_fee pass now entry \<le> 2147483647"
  shows "exit_fee pass now entry = spec_fee pass now entry"
proof (cases "pass = 0")
  case False
  then show ?thesis by (simp add: exit_fee_def spec_fee_def Let_def)
next
  case True
  define e where "e = max 0 (now - entry)"
  define h where "h = (e + 3599) div 3600"
  have e0: "0 \<le> e" by (simp add: e_def)
  then have h0: "0 \<le> h" by (simp add: h_def pos_imp_zdiv_nonneg_iff)
  have b: "h * 50 \<le> 2147483647" using assms True by (simp add: spec_fee_div e_def h_def)
  then have hr: "int32_range h" "int32_range (h * 50)" using h0 by (simp_all add: int32_range_def)
  have "e + 3599 < 3600 * (h + 1)"
    using div_mult_mod_eq[of "e + 3599" 3600] pos_mod_bound[of 3600 "e + 3599"]
    by (simp add: h_def algebra_simps)
  then have e53: "e < 2 ^ 53" using b by simp
  have d: "(if to_double (now - entry) < 0 then 0 else to_double (now - entry)) = e"
  proof (cases "now - entry < 0")
    case True
    then show ?thesis using to_double_sign(1)[OF True] by (simp add: e_def)
  next
    case False
    then have "e = now - entry" by (simp add: e_def)
    then have "to_double (now - entry) = e" using e53 e0 by (simp add: to_double_exact)
    then show ?thesis using e0 by simp
  qed
  have c: "c_div (e + 3599) 3600 = h" using e0 by (simp add: c_div_nonneg h_def)
  have "exit_fee pass now entry = h * 50"
    unfolding exit_fee_def Let_def d c using True h0 hr by (simp add: to_int32_id)
  then show ?thesis using True by (simp add: spec_fee_div e_def h_def)
qed

text \<open>
  Beyond \<open>2 ^ 53\<close> seconds the rounding shows in the fee: of 9014277360848401 seconds the
  \<open>double\<close> keeps 9014277360848400, a whole number of hours, so that one hour less is
  charged than the integer has begun.
\<close>

lemma exit_fee_rounded:
  "to_double 9014277360848401 = 9014277360848400 \<and> exit_fee 0 9014277360848401 0 = 50"
  by code_simp

lemma totalRevenue_promote_waiting:
  "totalRevenue (snd (promote_waiting now2 alloc s)) = totalRevenue s"
  unfolding promote_waiting_def
  by (simp add: case_prod_beta Let_def addHistoryNode_def)

subsection \<open>The history list\<close>

lemma close_history_no_match:
  "\<forall>t \<in> set hs. \<not> (ncar t = car \<and> nslot t = slot \<and> exitTime t = 0) \<Longrightarrow>
   close_history car slot now hs = hs"
  by (induction hs) auto

lemma close_history_first_match:
  "\<forall>t \<in> set pre. \<not> (ncar t = car \<and> nslot t = slot \<and> exitTime t = 0) \<Longrightarrow>
   ncar t = car \<and> nslot t = slot \<and> exitTime t = 0 \<Longrightarrow>
   close_history car slot now (pre @ t # post) = pre @ t\<lparr>exitTime := now\<rparr> # post"
  by (induction pre) auto

lemma history_promote_waiting:
  "history (snd (promote_waiting now2 alloc s)) =
   (case fst (promote_waiting now2 alloc s) of
      None \<Rightarrow> history s
    | Some (newSlot, nxt) \<Rightarrow>
        if alloc then \<lparr>ncar = nxt, nslot = newSlot, entryTime = now2, exitTime = 0\<rparr> # history s
        else history s)"
  unfolding promote_waiting_def
  by (simp add: case_prod_beta Let_def addHistoryNode_def)

lemma history_vehicleEntry:
  "history (snd (vehicleEntry inp now alloc s)) =
   (case fst (vehicleEntry inp now alloc s) of
      Entry_parked slot t \<Rightarrow>
        if alloc then \<lparr>ncar = the inp, nslot = slot, entryTime = t, exitTime = 0\<rparr> # history s
        else history s
    | _ \<Rightarrow> history s)"
proof (cases inp)
  case None
  then show ?thesis by (simp add: vehicleEntry_def)
next
  case (Some car)
  show ?thesis
  proof (cases "canEnter car s")
    case r: (Some r)
    show ?thesis
      unfolding Some vehicleEntry_refused[OF r] using canEnter_refusal[OF r] by auto
  next
    case None
    then show ?thesis
      unfolding Some vehicleEntry_def
      by (simp add: case_prod_beta Let_def addHistoryNode_def)
  qed
qed

lemma reachable_fresh: "reachable fresh"
  unfolding fresh_def by (rule reachable_init)

lemma reachable_scenarios:
  "reachable one_parked" "reachable lot_full" "reachable two_waiting" "reachable all_taken"
  unfolding one_parked_def lot_full_def two_waiting_def all_taken_def
  by (rule reachable_run[OF reachable_fresh])+

lemma reachable_after_exit: "reachable after_exit"
  unfolding after_exit_def by (rule reachable_run[OF reachable_scenarios(3)])

section \<open>The claims of the specification\<close>

subsection \<open>C1: The smallest free slot\<close>

text \<open>
  C1. \<open>heapRemoveMin\<close> on a heap that holds a set of free slots returns \<open>-1\<close> and
  changes nothing when the set is empty, and otherwise returns the least slot of the set
  and leaves a heap that holds the others; \<open>heapInsert\<close> adds a slot to the set; the heap
  of a reachable state holds the slots that \<open>slotToCar\<close> marks free. Hence an entry that
  parks a car assigns it the least free slot: the slot reported is the least one free
  before the entry, and in the state after the entry \<open>slotOfCar\<close> holds that slot for the
  car, \<open>slotToCar\<close> holds the car for that slot, no other entry of the two tables has
  changed, the entry time is the time of the call, and both the heap and the free slots
  of \<open>slotToCar\<close> are those of before without that slot. An entry of a car that
  \<open>canEnter\<close> admits, while a slot is free, does park it so.
\<close>

theorem heapRemoveMin_smallest_free:
  "(heap_ok h \<and> distinct (heap_list h) \<longrightarrow>
      (set (heap_list h) = {} \<longrightarrow> heapRemoveMin h = (- 1, h)) \<and>
      (set (heap_list h) \<noteq> {} \<longrightarrow>
         fst (heapRemoveMin h) = Min (set (heap_list h)) \<and>
         heap_ok (snd (heapRemoveMin h)) \<and>
         distinct (heap_list (snd (heapRemoveMin h))) \<and>
         set (heap_list (snd (heapRemoveMin h))) = set (heap_list h) - {Min (set (heap_list h))})) \<and>
   (heap_ok h \<and> distinct (heap_list h) \<and> heapSize h < MAX_SLOTS \<and> v \<notin> set (heap_list h) \<longrightarrow>
      heap_ok (heapInsert v h) \<and> distinct (heap_list (heapInsert v h)) \<and>
      set (heap_list (heapInsert v h)) = insert v (set (heap_list h))) \<and>
   (reachable s \<longrightarrow>
      heap_ok (heap s) \<and> distinct (heap_list (heap s)) \<and>
      set (heap_list (heap s)) = free_slots (slotToCar s)) \<and>
   (reachable s \<and> fst (vehicleEntry inp now alloc s) = Entry_parked slot t \<longrightarrow>
      slot = Min (free_slots (slotToCar s)) \<and> slot \<in> free_slots (slotToCar s) \<and> t = now \<and>
      (\<exists>car. inp = Some car \<and> 0 \<le> car \<and> car < int MAX_CARS \<and> slotOfCar s ! nat car = - 1 \<and>
         slotOfCar (snd (vehicleEntry inp now alloc s)) = (slotOfCar s)[nat car := slot] \<and>
         slotToCar (snd (vehicleEntry inp now alloc s)) = (slotToCar s)[nat slot := car] \<and>
         entryTimeOfCar (snd (vehicleEntry inp now alloc s)) = (entryTimeOfCar s)[nat car := now] \<and>
         slotOfCar (snd (vehicleEntry inp now alloc s)) ! nat car = slot \<and>
         slotToCar (snd (vehicleEntry inp now alloc s)) ! nat slot = car) \<and>
      heap (snd (vehicleEntry inp now alloc s)) = snd (heapRemoveMin (heap s)) \<and>
      set (heap_list (heap (snd (vehicleEntry inp now alloc s)))) = free_slots (slotToCar s) - {slot} \<and>
      free_slots (slotToCar (snd (vehicleEntry inp now alloc s))) = free_slots (slotToCar s) - {slot} \<and>
      waitq (snd (vehicleEntry inp now alloc s)) = waitq s) \<and>
   (reachable s \<and> canEnter c s = None \<and> free_slots (slotToCar s) \<noteq> {} \<longrightarrow>
      fst (vehicleEntry (Some c) now alloc s) = Entry_parked (Min (free_slots (slotToCar s))) now \<and>
      slotOfCar (snd (vehicleEntry (Some c) now alloc s)) ! nat c = Min (free_slots (slotToCar s)) \<and>
      slotToCar (snd (vehicleEntry (Some c) now alloc s)) ! nat (Min (free_slots (slotToCar s))) = c)"
proof (intro conjI impI)
  assume a: "heap_ok h \<and> distinct (heap_list h)"
  {
    assume "set (heap_list h) = {}"
    then have "length (heap_list h) = 0" by simp
    then have "heapSize h = 0" by simp
    then show "heapRemoveMin h = (- 1, h)" by (rule heapRemoveMin_empty)
  }
  assume ne: "set (heap_list h) \<noteq> {}"
  then have "heap_list h \<noteq> []" by auto
  then have "length (heap_list h) \<noteq> 0" by (simp del: length_heap_list)
  then have pos: "0 < heapSize h" by simp
  note r = heapRemoveMin_correct[OF conjunct1[OF a] pos]
  have m: "heapArr h ! 1 = Min (set (heap_list h))"
    by (rule heap_root_Min[OF conjunct1[OF a] pos])
  note d = mset_remove_distinct[OF r(4) conjunct2[OF a]]
  show "fst (heapRemoveMin h) = Min (set (heap_list h))" using r(1) m by simp
  show "heap_ok (snd (heapRemoveMin h))" by (rule r(2))
  show "distinct (heap_list (snd (heapRemoveMin h)))" by (rule d(1))
  show "set (heap_list (snd (heapRemoveMin h))) = set (heap_list h) - {Min (set (heap_list h))}"
    using d(2) m by simp
next
  assume a: "heap_ok h \<and> distinct (heap_list h) \<and> heapSize h < MAX_SLOTS \<and> v \<notin> set (heap_list h)"
  then have b: "heap_ok h" "distinct (heap_list h)" "heapSize h < MAX_SLOTS" "v \<notin> set (heap_list h)"
    by simp_all
  note i = heapInsert_ok[OF b(1,3), of v]
  note d = mset_add_distinct[OF i(3) b(2,4)]
  show "heap_ok (heapInsert v h)" by (rule i(1))
  show "distinct (heap_list (heapInsert v h))" by (rule d(1))
  show "set (heap_list (heapInsert v h)) = insert v (set (heap_list h))" by (rule d(2))
next
  assume "reachable s"
  then have i: "sys_inv s" by (rule reachable_sys_inv)
  show "heap_ok (heap s)" "distinct (heap_list (heap s))"
    "set (heap_list (heap s)) = free_slots (slotToCar s)"
    using sys_invD(4,5,6)[OF i] by simp_all
next
  assume a: "reachable s \<and> fst (vehicleEntry inp now alloc s) = Entry_parked slot t"
  then have i: "sys_inv s" by (simp add: reachable_sys_inv)
  note ps = vehicleEntry_parked_slot[OF i conjunct2[OF a]]
  show "slot = Min (free_slots (slotToCar s))" "slot \<in> free_slots (slotToCar s)" "t = now"
    using ps by simp_all
  obtain car where car: "inp = Some car" "canEnter car s = None" "0 < heapSize (heap s)"
    using vehicleEntry_parked_car[OF i conjunct2[OF a]] by blast
  note c = canEnter_None[OF i car(2)]
  note st = vehicleEntry_parked_state[OF i car(2,3) refl ps(1), of now alloc]
  have "inp = Some car \<and> 0 \<le> car \<and> car < int MAX_CARS \<and> slotOfCar s ! nat car = - 1 \<and>
         slotOfCar (snd (vehicleEntry inp now alloc s)) = (slotOfCar s)[nat car := slot] \<and>
         slotToCar (snd (vehicleEntry inp now alloc s)) = (slotToCar s)[nat slot := car] \<and>
         entryTimeOfCar (snd (vehicleEntry inp now alloc s)) = (entryTimeOfCar s)[nat car := now] \<and>
         slotOfCar (snd (vehicleEntry inp now alloc s)) ! nat car = slot \<and>
         slotToCar (snd (vehicleEntry inp now alloc s)) ! nat slot = car"
    unfolding car(1) using c st(2,3,4,9,10) by simp
  then show "\<exists>car. inp = Some car \<and> 0 \<le> car \<and> car < int MAX_CARS \<and> slotOfCar s ! nat car = - 1 \<and>
         slotOfCar (snd (vehicleEntry inp now alloc s)) = (slotOfCar s)[nat car := slot] \<and>
         slotToCar (snd (vehicleEntry inp now alloc s)) = (slotToCar s)[nat slot := car] \<and>
         entryTimeOfCar (snd (vehicleEntry inp now alloc s)) = (entryTimeOfCar s)[nat car := now] \<and>
         slotOfCar (snd (vehicleEntry inp now alloc s)) ! nat car = slot \<and>
         slotToCar (snd (vehicleEntry inp now alloc s)) ! nat slot = car" ..
  show "heap (snd (vehicleEntry inp now alloc s)) = snd (heapRemoveMin (heap s))"
    unfolding car(1) by (rule st(5))
  show "set (heap_list (heap (snd (vehicleEntry inp now alloc s)))) = free_slots (slotToCar s) - {slot}"
    unfolding car(1) by (rule st(12))
  show "free_slots (slotToCar (snd (vehicleEntry inp now alloc s))) = free_slots (slotToCar s) - {slot}"
    unfolding car(1) by (rule st(11))
  show "waitq (snd (vehicleEntry inp now alloc s)) = waitq s"
    unfolding car(1) by (rule st(6))
next
  assume a: "reachable s \<and> canEnter c s = None \<and> free_slots (slotToCar s) \<noteq> {}"
  then have i: "sys_inv s" by (simp add: reachable_sys_inv)
  have "set (heap_list (heap s)) \<noteq> {}" using a sys_invD(6)[OF i] by simp
  then have "heap_list (heap s) \<noteq> []" by auto
  then have "length (heap_list (heap s)) \<noteq> 0" by (simp del: length_heap_list)
  then have pos: "0 < heapSize (heap s)" by simp
  have ce: "canEnter c s = None" using a by simp
  note st = vehicleEntry_parked_state[OF i ce pos refl refl, of now alloc]
  show "fst (vehicleEntry (Some c) now alloc s) = Entry_parked (Min (free_slots (slotToCar s))) now"
    by (rule st(1))
  show "slotOfCar (snd (vehicleEntry (Some c) now alloc s)) ! nat c = Min (free_slots (slotToCar s))"
    by (rule st(9))
  show "slotToCar (snd (vehicleEntry (Some c) now alloc s)) ! nat (Min (free_slots (slotToCar s))) = c"
    by (rule st(10))
qed

theorem heapRemoveMin_smallest_free_witness:
  "heapRemoveMin (heap zero_state) = (- 1, heap zero_state) \<and>
   fst (heapRemoveMin (heap fresh)) = 1 \<and>
   Min (set (heap_list (heap fresh))) = 1 \<and>
   set (heap_list (snd (heapRemoveMin (heap fresh)))) = set (heap_list (heap fresh)) - {1} \<and>
   set (heap_list (heapInsert 1 (snd (heapRemoveMin (heap fresh))))) =
     insert 1 (set (heap_list (snd (heapRemoveMin (heap fresh))))) \<and>
   reachable fresh \<and>
   set (heap_list (heap fresh)) = free_slots (slotToCar fresh) \<and>
   fst (vehicleEntry (Some 7) 1000 True fresh) = Entry_parked 1 1000 \<and>
   Min (free_slots (slotToCar fresh)) = 1 \<and>
   slotOfCar (snd (vehicleEntry (Some 7) 1000 True fresh)) ! nat 7 = 1 \<and>
   slotToCar (snd (vehicleEntry (Some 7) 1000 True fresh)) ! nat 1 = 7 \<and>
   reachable (run (arrivals 3 @ [Exit (Some 1) 1500 1500 True]) fresh) \<and>
   canEnter 3 (run (arrivals 3 @ [Exit (Some 1) 1500 1500 True]) fresh) = None \<and>
   fst (vehicleEntry (Some 3) 2000 True (run (arrivals 3 @ [Exit (Some 1) 1500 1500 True]) fresh))
     = Entry_parked 2 2000 \<and>
   Min (free_slots (slotToCar (run (arrivals 3 @ [Exit (Some 1) 1500 1500 True]) fresh))) = 2 \<and>
   slotOfCar (run (arrivals 3 @ [Exit (Some 1) 1500 1500 True, Entry (Some 3) 2000 True]) fresh) =
     (slotOfCar (run (arrivals 3 @ [Exit (Some 1) 1500 1500 True]) fresh))[3 := 2] \<and>
   slotToCar (run (arrivals 3 @ [Exit (Some 1) 1500 1500 True, Entry (Some 3) 2000 True]) fresh) =
     (slotToCar (run (arrivals 3 @ [Exit (Some 1) 1500 1500 True]) fresh))[2 := 3] \<and>
   slotOfCar (run (arrivals 3 @ [Exit (Some 1) 1500 1500 True, Entry (Some 3) 2000 True]) fresh) ! 3 = 2 \<and>
   slotToCar (run (arrivals 3 @ [Exit (Some 1) 1500 1500 True, Entry (Some 3) 2000 True]) fresh) ! 2 = 3 \<and>
   free_slots (slotToCar (run (arrivals 3 @ [Exit (Some 1) 1500 1500 True, Entry (Some 3) 2000 True]) fresh)) =
     free_slots (slotToCar (run (arrivals 3 @ [Exit (Some 1) 1500 1500 True]) fresh)) - {2}"
proof -
  let ?h = "heap fresh" and ?h' = "snd (heapRemoveMin (heap fresh))"
  let ?s = "run (arrivals 3 @ [Exit (Some 1) 1500 1500 True]) fresh"
  let ?s' = "run (arrivals 3 @ [Exit (Some 1) 1500 1500 True, Entry (Some 3) 2000 True]) fresh"
  have ok: "heap_ok ?h" "distinct (heap_list ?h)"
    using initSystem_heap[OF arrays_ok_zero_state] by (simp_all add: fresh_def)
  have l: "heap_list ?h = [1, 2, 3, 4, 5, 6, 7, 8, 9, 10]" by code_simp
  have l': "heap_list ?h' = [2, 4, 3, 8, 5, 6, 7, 10, 9]" by code_simp
  have f: "fst (heapRemoveMin ?h) = 1" by code_simp
  have e: "fst (vehicleEntry (Some 7) 1000 True fresh) = Entry_parked 1 1000" by code_simp
  have e2: "fst (vehicleEntry (Some 3) 2000 True ?s) = Entry_parked 2 2000" by code_simp
  have c1: "canEnter 7 fresh = None" by code_simp
  have c2: "canEnter 3 ?s = None" by code_simp
  have s': "?s' = snd (vehicleEntry (Some 3) 2000 True ?s)" by (simp add: run_def)
  have r2: "reachable ?s" by (rule reachable_run[OF reachable_fresh])
  have z: "heap_ok (heap zero_state)" "heap_list (heap zero_state) = []"
    by (simp_all add: zero_state_def heap_ok_def heap_order_def heap_list_def)
  note t0 = heapRemoveMin_smallest_free[where h = "heap zero_state" and v = 0 and s = fresh
      and inp = "Some 7" and now = 1000 and alloc = True and slot = 1 and t = 1000 and c = 7]
  note t1 = heapRemoveMin_smallest_free[where h = ?h and v = 0 and s = fresh
      and inp = "Some 7" and now = 1000 and alloc = True and slot = 1 and t = 1000 and c = 7]
  note t2 = heapRemoveMin_smallest_free[where h = ?h' and v = 1 and s = fresh
      and inp = "Some 7" and now = 1000 and alloc = True and slot = 1 and t = 1000 and c = 7]
  note t3 = heapRemoveMin_smallest_free[where h = ?h and v = 0 and s = ?s
      and inp = "Some 3" and now = 2000 and alloc = True and slot = 2 and t = 2000 and c = 3]
  have s9: "heapSize ?h' < MAX_SLOTS" using length_heap_list[of ?h'] unfolding l' by simp
  have fs: "set (heap_list ?h) = free_slots (slotToCar fresh)" using t1 reachable_fresh by simp
  have m1: "Min (free_slots (slotToCar fresh)) = 1" using t1 reachable_fresh e by simp
  have fr: "free_slots (slotToCar fresh) \<noteq> {}" using fs[symmetric] l by simp
  have "heapRemoveMin (heap zero_state) = (- 1, heap zero_state)" using t0 z by simp
  moreover have "Min (set (heap_list ?h)) = 1" using t1 ok f l by simp
  moreover have "set (heap_list ?h') = set (heap_list ?h) - {1}" using t1 ok f l by simp
  moreover have "set (heap_list (heapInsert 1 ?h')) = insert 1 (set (heap_list ?h'))"
    using t1 t2 ok l l' s9 by simp
  moreover note fs
  moreover note m1
  moreover have "slotOfCar (snd (vehicleEntry (Some 7) 1000 True fresh)) ! nat 7 = 1"
    "slotToCar (snd (vehicleEntry (Some 7) 1000 True fresh)) ! nat 1 = 7"
  proof -
    have "slotOfCar (snd (vehicleEntry (Some 7) 1000 True fresh)) ! nat 7
        = Min (free_slots (slotToCar fresh))"
      "slotToCar (snd (vehicleEntry (Some 7) 1000 True fresh)) ! nat (Min (free_slots (slotToCar fresh)))
        = 7"
      using t1 reachable_fresh c1 fr by blast+
    then show "slotOfCar (snd (vehicleEntry (Some 7) 1000 True fresh)) ! nat 7 = 1"
      "slotToCar (snd (vehicleEntry (Some 7) 1000 True fresh)) ! nat 1 = 7"
      unfolding m1 by simp_all
  qed
  moreover have "Min (free_slots (slotToCar ?s)) = 2"
    using t3 r2 e2 by simp
  moreover have "slotOfCar ?s' = (slotOfCar ?s)[3 := 2]" "slotToCar ?s' = (slotToCar ?s)[2 := 3]"
    "slotOfCar ?s' ! 3 = 2" "slotToCar ?s' ! 2 = 3"
    "free_slots (slotToCar ?s') = free_slots (slotToCar ?s) - {2}"
  proof -
    let ?e = "snd (vehicleEntry (Some 3) 2000 True ?s)"
    from t3 r2 e2 obtain car where k: "Some (3::int) = Some car"
      "slotOfCar ?e = (slotOfCar ?s)[nat car := 2]" "slotToCar ?e = (slotToCar ?s)[nat 2 := car]"
      "slotOfCar ?e ! nat car = 2" "slotToCar ?e ! nat 2 = car"
      by blast
    from t3 r2 e2 have k': "free_slots (slotToCar ?e) = free_slots (slotToCar ?s) - {2}"
      by blast
    have car: "car = 3" using k(1) by simp
    show "slotOfCar ?s' = (slotOfCar ?s)[3 := 2]" "slotToCar ?s' = (slotToCar ?s)[2 := 3]"
      "slotOfCar ?s' ! 3 = 2" "slotToCar ?s' ! 2 = 3"
      "free_slots (slotToCar ?s') = free_slots (slotToCar ?s) - {2}"
      unfolding s' using k(2-5) k' by (simp_all add: car)
  qed
  ultimately show ?thesis using f e e2 c2 r2 reachable_fresh by simp
qed

subsection \<open>C2: Slots and cars\<close>

text \<open>
  C2. In every reachable state the two occupancy tables are inverse to each other: a slot
  \<open>v\<close> holds a car \<open>c\<close> other than \<open>-1\<close> exactly when \<open>c\<close> is a car number whose entry in
  \<open>slotOfCar\<close> is \<open>v\<close>; so no car is the occupant of two slots.
\<close>

theorem slot_car_bijection:
  "reachable s \<longrightarrow>
   (\<forall>v. 1 \<le> v \<and> v \<le> MAX_SLOTS \<longrightarrow>
      (\<forall>c. (slotToCar s ! v = c \<and> c \<noteq> - 1) =
           (0 \<le> c \<and> c < int MAX_CARS \<and> slotOfCar s ! nat c = int v))) \<and>
   (\<forall>v w. 1 \<le> v \<and> v \<le> MAX_SLOTS \<and> 1 \<le> w \<and> w \<le> MAX_SLOTS \<and>
      slotToCar s ! v = slotToCar s ! w \<and> slotToCar s ! v \<noteq> - 1 \<longrightarrow> v = w)"
proof
  assume "reachable s"
  then have o: "occupancy_ok (slotOfCar s) (slotToCar s)"
    using sys_invD(1)[OF reachable_sys_inv] by simp
  have iff: "(slotToCar s ! v = c \<and> c \<noteq> - 1) =
           (0 \<le> c \<and> c < int MAX_CARS \<and> slotOfCar s ! nat c = int v)"
    if v: "1 \<le> v" "v \<le> MAX_SLOTS" for v c
  proof
    assume a: "slotToCar s ! v = c \<and> c \<noteq> - 1"
    then have "slotToCar s ! v \<noteq> - 1" by simp
    from occupancy_slot[OF o v this] a
    show "0 \<le> c \<and> c < int MAX_CARS \<and> slotOfCar s ! nat c = int v" by simp
  next
    assume a: "0 \<le> c \<and> c < int MAX_CARS \<and> slotOfCar s ! nat c = int v"
    then have c: "nat c < MAX_CARS" "slotOfCar s ! nat c \<noteq> - 1" "slotOfCar s ! nat c \<noteq> - 2"
      using v by auto
    from occupancy_car(3)[OF o c] a
    show "slotToCar s ! v = c \<and> c \<noteq> - 1" by simp
  qed
  have inj: "v = w"
    if "1 \<le> v \<and> v \<le> MAX_SLOTS \<and> 1 \<le> w \<and> w \<le> MAX_SLOTS \<and>
      slotToCar s ! v = slotToCar s ! w \<and> slotToCar s ! v \<noteq> - 1" for v w
  proof -
    have "slotOfCar s ! nat (slotToCar s ! v) = int v"
      using iff[of v "slotToCar s ! v"] that by simp
    moreover have "slotOfCar s ! nat (slotToCar s ! v) = int w"
      using iff[of w "slotToCar s ! v"] that by simp
    ultimately show ?thesis by simp
  qed
  show "(\<forall>v. 1 \<le> v \<and> v \<le> MAX_SLOTS \<longrightarrow>
      (\<forall>c. (slotToCar s ! v = c \<and> c \<noteq> - 1) =
           (0 \<le> c \<and> c < int MAX_CARS \<and> slotOfCar s ! nat c = int v))) \<and>
   (\<forall>v w. 1 \<le> v \<and> v \<le> MAX_SLOTS \<and> 1 \<le> w \<and> w \<le> MAX_SLOTS \<and>
      slotToCar s ! v = slotToCar s ! w \<and> slotToCar s ! v \<noteq> - 1 \<longrightarrow> v = w)"
    using iff inj by blast
qed

theorem slot_car_bijection_witness:
  "reachable two_waiting \<and> slotToCar two_waiting ! 4 = 3 \<and> slotOfCar two_waiting ! 3 = 4 \<and>
   slotOfCar two_waiting ! 10 = - 2 \<and> slotToCar two_waiting ! 10 \<noteq> 10"
proof -
  have e: "slotToCar two_waiting ! 4 = 3" "slotOfCar two_waiting ! 10 = - 2" by code_simp+
  note t = slot_car_bijection[of two_waiting, rule_format, OF reachable_scenarios(3)]
  have "slotOfCar two_waiting ! nat 3 = int 4"
    using conjunct1[OF t, rule_format, of 4 3] e(1) by simp
  moreover have "slotToCar two_waiting ! 10 \<noteq> 10"
    using conjunct1[OF t, rule_format, of 10 10] e(2) by simp
  ultimately show ?thesis using e reachable_scenarios(3) by simp
qed

subsection \<open>C3: The fee of an exit\<close>

text \<open>
  C3 (amended). When a parked car leaves, and the specification's fee is a value of the
  32-bit \<open>int\<close>, as the revenue with the fee added is, then the fee charged is the
  specification's fee: nothing for the holder of a pass, and otherwise 50 for every hour
  begun of the elapsed time \<open>max 0 (now - entry)\<close>; \<open>totalRevenue\<close> grows by the fee. An
  exit after 3600 seconds costs 50, and one after 3601 seconds costs 100.
\<close>

theorem exit_charges_spec_fee:
  "(0 \<le> car \<and> car < int MAX_CARS \<and> 1 \<le> slotOfCar s ! nat car \<and>
    spec_fee (passUser s ! nat car) now (entryTimeOfCar s ! nat car) \<le> 2147483647 \<and>
    int32_range (totalRevenue s + spec_fee (passUser s ! nat car) now (entryTimeOfCar s ! nat car))
    \<longrightarrow>
      fst (vehicleExit (Some car) now now2 alloc s) =
        Exited (slotOfCar s ! nat car)
          (spec_fee (passUser s ! nat car) now (entryTimeOfCar s ! nat car))
          (fst (promote_waiting now2 alloc (snd (release_slot car now s)))) \<and>
      totalRevenue (snd (vehicleExit (Some car) now now2 alloc s)) =
        totalRevenue s + spec_fee (passUser s ! nat car) now (entryTimeOfCar s ! nat car)) \<and>
   exit_fee 0 (entry + 3600) entry = 50 \<and>
   exit_fee 0 (entry + 3601) entry = 100 \<and>
   (pass \<noteq> 0 \<longrightarrow> exit_fee pass now entry = 0)"
proof (intro conjI impI)
  assume a: "0 \<le> car \<and> car < int MAX_CARS \<and> 1 \<le> slotOfCar s ! nat car \<and>
    spec_fee (passUser s ! nat car) now (entryTimeOfCar s ! nat car) \<le> 2147483647 \<and>
    int32_range (totalRevenue s + spec_fee (passUser s ! nat car) now (entryTimeOfCar s ! nat car))"
  then have p: "0 \<le> car" "car < int MAX_CARS" "slotOfCar s ! nat car \<noteq> - 1"
    "slotOfCar s ! nat car \<noteq> - 2" by simp_all
  have f: "exit_fee (passUser s ! nat car) now (entryTimeOfCar s ! nat car) =
           spec_fee (passUser s ! nat car) now (entryTimeOfCar s ! nat car)"
    using a by (intro exit_fee_spec) simp
  show "fst (vehicleExit (Some car) now now2 alloc s) =
        Exited (slotOfCar s ! nat car)
          (spec_fee (passUser s ! nat car) now (entryTimeOfCar s ! nat car))
          (fst (promote_waiting now2 alloc (snd (release_slot car now s))))"
    unfolding vehicleExit_parked[OF p] by (simp add: release_slot_eq f)
  show "totalRevenue (snd (vehicleExit (Some car) now now2 alloc s)) =
        totalRevenue s + spec_fee (passUser s ! nat car) now (entryTimeOfCar s ! nat car)"
    unfolding vehicleExit_parked[OF p] using a
    by (simp add: totalRevenue_promote_waiting release_slot_eq f to_int32_id)
next
  have "spec_fee 0 (entry + 3600) entry = 50" by (simp add: spec_fee_div)
  then show "exit_fee 0 (entry + 3600) entry = 50" using exit_fee_spec[of 0 "entry + 3600" entry] by simp
next
  have "spec_fee 0 (entry + 3601) entry = 100" by (simp add: spec_fee_div)
  then show "exit_fee 0 (entry + 3601) entry = 100" using exit_fee_spec[of 0 "entry + 3601" entry] by simp
next
  assume "pass \<noteq> 0"
  then show "exit_fee pass now entry = 0" by (rule exit_fee_pass)
qed

theorem exit_charges_spec_fee_witness:
  "slotOfCar two_waiting ! nat 3 = 4 \<and> passUser two_waiting ! nat 3 = 0 \<and>
   entryTimeOfCar two_waiting ! nat 3 = 1000 \<and> totalRevenue two_waiting = 0 \<and>
   spec_fee 0 4601 1000 = 100 \<and>
   fst (vehicleExit (Some 3) 4601 4700 True two_waiting) = Exited 4 100 (Some (4, 10)) \<and>
   totalRevenue (snd (vehicleExit (Some 3) 4601 4700 True two_waiting)) = 100 \<and>
   exit_fee 1 4601 1000 = 0"
proof -
  have e: "slotOfCar two_waiting ! nat 3 = 4" "passUser two_waiting ! nat 3 = 0"
    "entryTimeOfCar two_waiting ! nat 3 = 1000" "totalRevenue two_waiting = 0"
    "fst (promote_waiting 4700 True (snd (release_slot 3 4601 two_waiting))) = Some (4, 10)"
    by code_simp+
  have f: "spec_fee 0 4601 1000 = 100" by (simp add: spec_fee_div)
  note t = exit_charges_spec_fee[where car = 3 and s = two_waiting and now = 4601
      and ?now2.0 = 4700 and alloc = True and entry = 1000 and pass = 1]
  show ?thesis using t e f by (simp add: int32_range_def)
qed

text \<open>
  The claim as the specification states it fails where the hours no longer fit the \<open>int\<close>
  \<open>charged_hours\<close>: a car without a pass that entered at time 1000 and leaves
  \<open>2 ^ 31 * 3600\<close> seconds later is charged 0.
\<close>

theorem exit_fee_counterexample:
  "slotOfCar one_parked ! nat 0 = 1 \<and> passUser one_parked ! nat 0 = 0 \<and>
   entryTimeOfCar one_parked ! nat 0 = 1000 \<and>
   spec_fee 0 7730941133800 1000 = 107374182400 \<and>
   fst (vehicleExit (Some 0) 7730941133800 7730941133800 True one_parked) = Exited 1 0 None \<and>
   totalRevenue (snd (vehicleExit (Some 0) 7730941133800 7730941133800 True one_parked)) =
     totalRevenue one_parked"
proof -
  have "spec_fee 0 7730941133800 1000 = 107374182400" by (simp add: spec_fee_div)
  moreover have "slotOfCar one_parked ! nat 0 = 1" "passUser one_parked ! nat 0 = 0"
    "entryTimeOfCar one_parked ! nat 0 = 1000"
    "fst (vehicleExit (Some 0) 7730941133800 7730941133800 True one_parked) = Exited 1 0 None"
    "totalRevenue (snd (vehicleExit (Some 0) 7730941133800 7730941133800 True one_parked)) =
     totalRevenue one_parked"
    by code_simp+
  ultimately show ?thesis by simp
qed

subsection \<open>C4: Promotion from the queue\<close>

text \<open>
  C4 (amended). When a parked car leaves a reachable state in which cars wait, the car at
  the front of the queue is taken from it, so the queue is one shorter; the slot just
  released is then the only free slot, and the front car gets it, with the second time
  stamp as its entry time and both tables updated. When \<open>malloc\<close> provides the node, a
  new open record of that car, slot and time is put at the head of the history list; when
  it does not, no record is added. A car that has to wait is put at the back of the
  queue, so the front car is the one that has waited longest.
\<close>

theorem exit_promotes_front_car:
  "(reachable s \<and> 0 \<le> car \<and> car < int MAX_CARS \<and> 1 \<le> slotOfCar s ! nat car \<and>
    0 < waitCount (waitq s) \<longrightarrow>
      (let slot = slotOfCar s ! nat car;
           nxt = hd (queue_list (waitq s));
           s1 = snd (release_slot car now s);
           s' = snd (vehicleExit (Some car) now now2 alloc s)
       in fst (vehicleExit (Some car) now now2 alloc s) =
            Exited slot (exit_fee (passUser s ! nat car) now (entryTimeOfCar s ! nat car))
              (Some (slot, nxt)) \<and>
          free_slots (slotToCar s1) = {slot} \<and>
          Min (free_slots (slotToCar s1)) = slot \<and>
          queue_list (waitq s) = nxt # queue_list (waitq s') \<and>
          Suc (waitCount (waitq s')) = waitCount (waitq s) \<and>
          slotOfCar s' ! nat nxt = slot \<and>
          entryTimeOfCar s' ! nat nxt = now2 \<and>
          slotToCar s' ! nat slot = nxt \<and>
          history s' =
            (if alloc then [\<lparr>ncar = nxt, nslot = slot, entryTime = now2, exitTime = 0\<rparr>] else [])
            @ close_history car slot now (history s))) \<and>
   (reachable s \<and> fst (vehicleEntry (Some car) now alloc s) = Entry_waiting k \<longrightarrow>
      queue_list (waitq (snd (vehicleEntry (Some car) now alloc s))) = queue_list (waitq s) @ [car])"
proof (intro conjI impI)
  assume a: "reachable s \<and> 0 \<le> car \<and> car < int MAX_CARS \<and> 1 \<le> slotOfCar s ! nat car \<and>
    0 < waitCount (waitq s)"
  then have i: "sys_inv s" by (simp add: reachable_sys_inv)
  from a have p: "0 \<le> car" "car < int MAX_CARS" "slotOfCar s ! nat car \<noteq> - 1"
    "slotOfCar s ! nat car \<noteq> - 2" and w: "0 < waitCount (waitq s)" by simp_all
  note d = sys_invD[OF i] and pc = parked_car[OF i p]
  define slot where "slot = slotOfCar s ! nat car"
  define nxt where "nxt = hd (queue_list (waitq s))"
  define s1 where "s1 = snd (release_slot car now s)"
  define s' where "s' = snd (vehicleExit (Some car) now now2 alloc s)"
  note rel = release_slot_inv[OF i p, of now, folded s1_def slot_def]
  note k = core_invD[OF rel(1)]
  have s1f: "waitq s1 = waitq s" "history s1 = close_history car slot now (history s)"
    "slotOfCar s1 = (slotOfCar s)[nat car := - 1]"
    by (simp_all add: s1_def release_slot_eq slot_def)
  have "heapSize (heap s) = 0" using d(10) w by simp
  then have "length (heap_list (heap s)) = 0" by simp
  then have "heap_list (heap s) = []" by (simp del: length_heap_list)
  then have "free_slots (slotToCar s) = {}" using d(6) by simp
  then have fs: "free_slots (slotToCar s1) = {slot}" using rel(3) by simp
  then have mn: "Min (free_slots (slotToCar s1)) = slot" by simp
  have pos: "0 < heapSize (heap s1)" using rel(2) by simp
  have w1: "0 < waitCount (waitq s1)" using w s1f(1) by simp
  note pr = promote_waiting_some[OF rel(1) w1 pos, of now2 alloc, unfolded mn s1f(1), folded nxt_def]
  have ex: "vehicleExit (Some car) now now2 alloc s =
      (Exited slot (exit_fee (passUser s ! nat car) now (entryTimeOfCar s ! nat car))
         (fst (promote_waiting now2 alloc s1)), snd (promote_waiting now2 alloc s1))"
    unfolding vehicleExit_parked[OF p] s1_def by (simp add: release_slot_eq slot_def)
  have "length (queue_list (waitq s)) \<noteq> 0" using w by simp
  then have ne: "queue_list (waitq s) \<noteq> []" by (simp del: length_queue_list)
  then have "nxt \<in> set (queue_list (waitq s))" by (simp add: nxt_def)
  then have "nxt \<in> waiting_cars (slotOfCar s)" using d(9) by simp
  then have n: "0 \<le> nxt" "nxt < 100" by (simp_all add: waiting_cars_def)
  have len: "nat nxt < length (slotOfCar s1)" "nat nxt < length (entryTimeOfCar s1)"
    "nat slot < length (slotToCar s1)"
    using n occupancy_len[OF k(1)] k(2) pc(2) by (simp_all add: slot_def)
  have s'eq: "s' = snd (promote_waiting now2 alloc s1)" by (simp add: s'_def ex)
  have r1: "fst (vehicleExit (Some car) now now2 alloc s) =
            Exited slot (exit_fee (passUser s ! nat car) now (entryTimeOfCar s ! nat car))
              (Some (slot, nxt))"
    by (simp add: ex pr(1))
  have r3: "queue_list (waitq s) = nxt # queue_list (waitq s')"
    unfolding s'eq pr(4) using ne by (simp add: nxt_def)
  have "length (queue_list (waitq s)) = Suc (length (queue_list (waitq s')))"
    by (subst r3) simp
  then have r4: "Suc (waitCount (waitq s')) = waitCount (waitq s)" by simp
  have r5: "slotOfCar s' ! nat nxt = slot" "entryTimeOfCar s' ! nat nxt = now2"
    "slotToCar s' ! nat slot = nxt"
    unfolding s'eq pr(1) using len by (simp_all add: addHistoryNode_def)
  have r6: "history s' =
            (if alloc then [\<lparr>ncar = nxt, nslot = slot, entryTime = now2, exitTime = 0\<rparr>] else [])
            @ close_history car slot now (history s)"
    unfolding s'eq pr(1) by (simp add: addHistoryNode_def s1f(2))
  show "let slot = slotOfCar s ! nat car;
           nxt = hd (queue_list (waitq s));
           s1 = snd (release_slot car now s);
           s' = snd (vehicleExit (Some car) now now2 alloc s)
       in fst (vehicleExit (Some car) now now2 alloc s) =
            Exited slot (exit_fee (passUser s ! nat car) now (entryTimeOfCar s ! nat car))
              (Some (slot, nxt)) \<and>
          free_slots (slotToCar s1) = {slot} \<and>
          Min (free_slots (slotToCar s1)) = slot \<and>
          queue_list (waitq s) = nxt # queue_list (waitq s') \<and>
          Suc (waitCount (waitq s')) = waitCount (waitq s) \<and>
          slotOfCar s' ! nat nxt = slot \<and>
          entryTimeOfCar s' ! nat nxt = now2 \<and>
          slotToCar s' ! nat slot = nxt \<and>
          history s' =
            (if alloc then [\<lparr>ncar = nxt, nslot = slot, entryTime = now2, exitTime = 0\<rparr>] else [])
            @ close_history car slot now (history s)"
    unfolding Let_def slot_def[symmetric] nxt_def[symmetric] s1_def[symmetric] s'_def[symmetric]
    using r1 fs mn r3 r4 r5 r6 by simp
next
  assume a: "reachable s \<and> fst (vehicleEntry (Some car) now alloc s) = Entry_waiting k"
  then have "sys_inv s" by (simp add: reachable_sys_inv)
  from vehicleEntry_waiting_back(1)[OF this conjunct2[OF a]]
  show "queue_list (waitq (snd (vehicleEntry (Some car) now alloc s))) = queue_list (waitq s) @ [car]" .
qed


theorem exit_promotes_front_car_witness:
  "reachable two_waiting \<and> slotOfCar two_waiting ! nat 3 = 4 \<and>
   queue_list (waitq two_waiting) = [10, 11] \<and>
   fst (vehicleExit (Some 3) 4601 4700 True two_waiting) = Exited 4 100 (Some (4, 10)) \<and>
   queue_list (waitq (snd (vehicleExit (Some 3) 4601 4700 True two_waiting))) = [11] \<and>
   waitCount (waitq (snd (vehicleExit (Some 3) 4601 4700 True two_waiting))) = 1 \<and>
   slotOfCar (snd (vehicleExit (Some 3) 4601 4700 True two_waiting)) ! nat 10 = 4 \<and>
   entryTimeOfCar (snd (vehicleExit (Some 3) 4601 4700 True two_waiting)) ! nat 10 = 4700 \<and>
   slotToCar (snd (vehicleExit (Some 3) 4601 4700 True two_waiting)) ! nat 4 = 10 \<and>
   hd (history (snd (vehicleExit (Some 3) 4601 4700 True two_waiting))) =
     \<lparr>ncar = 10, nslot = 4, entryTime = 4700, exitTime = 0\<rparr> \<and>
   fst (vehicleEntry (Some 10) 1000 True lot_full) = Entry_waiting 1 \<and>
   queue_list (waitq (snd (vehicleEntry (Some 10) 1000 True lot_full))) = [10]"
proof -
  have e: "slotOfCar two_waiting ! nat 3 = 4" "queue_list (waitq two_waiting) = [10, 11]"
    "waitCount (waitq two_waiting) = 2"
    "exit_fee (passUser two_waiting ! nat 3) 4601 (entryTimeOfCar two_waiting ! nat 3) = 100"
    "fst (vehicleEntry (Some 10) 1000 True lot_full) = Entry_waiting 1"
    "queue_list (waitq lot_full) = []"
    by code_simp+
  note t = exit_promotes_front_car[where s = two_waiting and car = 3 and now = 4601
      and ?now2.0 = 4700 and alloc = True and k = 1]
  note u = exit_promotes_front_car[where s = lot_full and car = 10 and now = 1000
      and ?now2.0 = 4700 and alloc = True and k = 1]
  have "queue_list (waitq (snd (vehicleEntry (Some 10) 1000 True lot_full))) = [10]"
    using u e(5,6) reachable_scenarios(2) by simp
  moreover have "fst (vehicleExit (Some 3) 4601 4700 True two_waiting) = Exited 4 100 (Some (4, 10)) \<and>
   queue_list (waitq (snd (vehicleExit (Some 3) 4601 4700 True two_waiting))) = [11] \<and>
   waitCount (waitq (snd (vehicleExit (Some 3) 4601 4700 True two_waiting))) = 1 \<and>
   slotOfCar (snd (vehicleExit (Some 3) 4601 4700 True two_waiting)) ! nat 10 = 4 \<and>
   entryTimeOfCar (snd (vehicleExit (Some 3) 4601 4700 True two_waiting)) ! nat 10 = 4700 \<and>
   slotToCar (snd (vehicleExit (Some 3) 4601 4700 True two_waiting)) ! nat 4 = 10 \<and>
   hd (history (snd (vehicleExit (Some 3) 4601 4700 True two_waiting))) =
     \<lparr>ncar = 10, nslot = 4, entryTime = 4700, exitTime = 0\<rparr>"
    using t e(1,2,3,4) reachable_scenarios(3) by (simp add: Let_def)
  ultimately show ?thesis using e reachable_scenarios(3) by simp
qed

text \<open>
  The claim as the specification states it fails when \<open>malloc\<close> gives no node: the
  waiting car 10 gets slot 4, and the history list holds no record of it.
\<close>

theorem exit_promotes_front_car_counterexample:
  "slotOfCar two_waiting ! nat 3 = 4 \<and> queue_list (waitq two_waiting) = [10, 11] \<and>
   fst (vehicleExit (Some 3) 4601 4700 False two_waiting) = Exited 4 100 (Some (4, 10)) \<and>
   slotOfCar (snd (vehicleExit (Some 3) 4601 4700 False two_waiting)) ! nat 10 = 4 \<and>
   map ncar (history (snd (vehicleExit (Some 3) 4601 4700 False two_waiting))) =
     [9, 8, 7, 6, 5, 4, 3, 2, 1, 0] \<and>
   length (history (snd (vehicleExit (Some 3) 4601 4700 False two_waiting))) =
     length (history two_waiting)"
  by code_simp

subsection \<open>C5: Refused operations\<close>

text \<open>
  C5. A refused operation changes nothing in the state: an entry with a car number out of
  range, an entry of a car that is parked or waiting, an entry while no slot is free and
  the queue is full (the car stays absent), and an exit with a car number out of range or
  of an absent car.
\<close>

theorem refusals_change_nothing:
  "(car < 0 \<or> int MAX_CARS \<le> car \<longrightarrow>
      vehicleEntry (Some car) now alloc s = (Entry_invalid_id, s) \<and>
      vehicleExit (Some car) now now2 alloc s = (Exit_invalid_id, s)) \<and>
   (0 \<le> car \<and> car < int MAX_CARS \<and> 1 \<le> slotOfCar s ! nat car \<longrightarrow>
      vehicleEntry (Some car) now alloc s = (Entry_duplicate_parked, s)) \<and>
   (0 \<le> car \<and> car < int MAX_CARS \<and> slotOfCar s ! nat car = - 2 \<longrightarrow>
      vehicleEntry (Some car) now alloc s = (Entry_duplicate_waiting, s)) \<and>
   (0 \<le> car \<and> car < int MAX_CARS \<and> slotOfCar s ! nat car = - 1 \<and>
    heapSize (heap s) = 0 \<and> waitCount (waitq s) = WAIT_CAP \<longrightarrow>
      vehicleEntry (Some car) now alloc s = (Entry_full, s)) \<and>
   (reachable s \<and> 0 \<le> car \<and> car < int MAX_CARS \<and> slotOfCar s ! nat car = - 1 \<and>
    free_slots (slotToCar s) = {} \<and> waitCount (waitq s) = WAIT_CAP \<longrightarrow>
      vehicleEntry (Some car) now alloc s = (Entry_full, s)) \<and>
   (0 \<le> car \<and> car < int MAX_CARS \<and> slotOfCar s ! nat car = - 1 \<longrightarrow>
      vehicleExit (Some car) now now2 alloc s = (Exit_not_parked, s))"
proof (intro conjI impI)
  assume "car < 0 \<or> int MAX_CARS \<le> car"
  then show "vehicleEntry (Some car) now alloc s = (Entry_invalid_id, s)"
    by (intro vehicleEntry_refused) (auto simp: canEnter_def)
next
  assume "car < 0 \<or> int MAX_CARS \<le> car"
  then show "vehicleExit (Some car) now now2 alloc s = (Exit_invalid_id, s)"
    by (rule vehicleExit_rejected(2))
next
  assume "0 \<le> car \<and> car < int MAX_CARS \<and> 1 \<le> slotOfCar s ! nat car"
  then show "vehicleEntry (Some car) now alloc s = (Entry_duplicate_parked, s)"
    by (intro vehicleEntry_refused) (auto simp: canEnter_def)
next
  assume "0 \<le> car \<and> car < int MAX_CARS \<and> slotOfCar s ! nat car = - 2"
  then show "vehicleEntry (Some car) now alloc s = (Entry_duplicate_waiting, s)"
    by (intro vehicleEntry_refused) (auto simp: canEnter_def)
next
  assume a: "0 \<le> car \<and> car < int MAX_CARS \<and> slotOfCar s ! nat car = - 1 \<and>
    heapSize (heap s) = 0 \<and> waitCount (waitq s) = WAIT_CAP"
  then have "canEnter car s = None" by (auto simp: canEnter_def)
  then show "vehicleEntry (Some car) now alloc s = (Entry_full, s)"
    using a by (intro vehicleEntry_full) simp_all
next
  assume a: "reachable s \<and> 0 \<le> car \<and> car < int MAX_CARS \<and> slotOfCar s ! nat car = - 1 \<and>
    free_slots (slotToCar s) = {} \<and> waitCount (waitq s) = WAIT_CAP"
  then have ce: "canEnter car s = None" by (auto simp: canEnter_def)
  have "set (heap_list (heap s)) = {}"
    using a sys_invD(6)[OF reachable_sys_inv, of s] by simp
  then have "length (heap_list (heap s)) = 0" by simp
  then have "heapSize (heap s) = 0" by simp
  then show "vehicleEntry (Some car) now alloc s = (Entry_full, s)"
    using a ce by (intro vehicleEntry_full) simp_all
next
  assume "0 \<le> car \<and> car < int MAX_CARS \<and> slotOfCar s ! nat car = - 1"
  then show "vehicleExit (Some car) now now2 alloc s = (Exit_not_parked, s)"
    by (intro vehicleExit_rejected(3)) simp_all
qed

theorem refusals_change_nothing_witness:
  "vehicleEntry (Some 100) 5 True all_taken = (Entry_invalid_id, all_taken) \<and>
   vehicleExit (Some (- 1)) 5 6 True all_taken = (Exit_invalid_id, all_taken) \<and>
   slotOfCar all_taken ! nat 3 = 4 \<and>
   vehicleEntry (Some 3) 5 True all_taken = (Entry_duplicate_parked, all_taken) \<and>
   slotOfCar all_taken ! nat 12 = - 2 \<and>
   vehicleEntry (Some 12) 5 True all_taken = (Entry_duplicate_waiting, all_taken) \<and>
   slotOfCar all_taken ! nat 25 = - 1 \<and> heapSize (heap all_taken) = 0 \<and>
   waitCount (waitq all_taken) = WAIT_CAP \<and> reachable all_taken \<and>
   free_slots (slotToCar all_taken) = {} \<and>
   vehicleEntry (Some 25) 5 True all_taken = (Entry_full, all_taken) \<and>
   vehicleExit (Some 25) 5 6 True all_taken = (Exit_not_parked, all_taken)"
proof -
  have e: "slotOfCar all_taken ! nat 3 = 4" "slotOfCar all_taken ! nat 12 = - 2"
    "slotOfCar all_taken ! nat 25 = - 1" "heapSize (heap all_taken) = 0"
    "waitCount (waitq all_taken) = WAIT_CAP" by code_simp+
  have "set (heap_list (heap all_taken)) = {}"
    using e(4) length_heap_list[of "heap all_taken"] by (simp del: length_heap_list)
  then have f: "free_slots (slotToCar all_taken) = {}"
    using sys_invD(6)[OF reachable_sys_inv[OF reachable_scenarios(4)]] by simp
  note t1 = refusals_change_nothing[of 100 5 True all_taken 6]
  note t2 = refusals_change_nothing[of "- 1" 5 True all_taken 6]
  note t3 = refusals_change_nothing[of 3 5 True all_taken 6]
  note t4 = refusals_change_nothing[of 12 5 True all_taken 6]
  note t5 = refusals_change_nothing[of 25 5 True all_taken 6]
  have "vehicleEntry (Some 100) 5 True all_taken = (Entry_invalid_id, all_taken)"
    using t1 by simp
  moreover have "vehicleExit (Some (- 1)) 5 6 True all_taken = (Exit_invalid_id, all_taken)"
    using t2 by simp
  moreover have "vehicleEntry (Some 3) 5 True all_taken = (Entry_duplicate_parked, all_taken)"
    using t3 e(1) by simp
  moreover have "vehicleEntry (Some 12) 5 True all_taken = (Entry_duplicate_waiting, all_taken)"
    using t4 e(2) by simp
  moreover have "vehicleEntry (Some 25) 5 True all_taken = (Entry_full, all_taken)"
    using t5 e(3,4,5) by simp
  moreover have "vehicleExit (Some 25) 5 6 True all_taken = (Exit_not_parked, all_taken)"
    using t5 e(3) by simp
  ultimately show ?thesis using e f reachable_scenarios(4) by simp
qed

subsection \<open>C6: The emergency reset\<close>

text \<open>
  C6. \<open>emergencyMode\<close>, on a state whose arrays have their declared lengths, marks every
  car absent with entry time 0, empties every slot, leaves a heap that holds the slots 1
  to \<open>MAX_SLOTS\<close>, empties the queue, and leaves \<open>totalRevenue\<close> and the history list as
  they were.
\<close>

theorem emergencyMode_resets:
  "arrays_ok s \<longrightarrow>
   slotOfCar (emergencyMode s) = replicate MAX_CARS (- 1) \<and>
   entryTimeOfCar (emergencyMode s) = replicate MAX_CARS 0 \<and>
   (\<forall>v. 1 \<le> v \<and> v \<le> MAX_SLOTS \<longrightarrow> slotToCar (emergencyMode s) ! v = - 1) \<and>
   free_slots (slotToCar (emergencyMode s)) = {v. 1 \<le> v \<and> v \<le> int MAX_SLOTS} \<and>
   heap_ok (heap (emergencyMode s)) \<and> heapSize (heap (emergencyMode s)) = MAX_SLOTS \<and>
   distinct (heap_list (heap (emergencyMode s))) \<and>
   set (heap_list (heap (emergencyMode s))) = {v. 1 \<le> v \<and> v \<le> int MAX_SLOTS} \<and>
   waitCount (waitq (emergencyMode s)) = 0 \<and> queue_list (waitq (emergencyMode s)) = [] \<and>
   waitFront (waitq (emergencyMode s)) = 0 \<and> waitRear (waitq (emergencyMode s)) = - 1 \<and>
   totalRevenue (emergencyMode s) = totalRevenue s \<and>
   history (emergencyMode s) = history s"
proof
  assume a: "arrays_ok s"
  note t = emergencyMode_tables[OF a] and h = emergencyMode_heap[OF a]
    and f = emergencyMode_frame[of s]
  have "\<forall>v. 1 \<le> v \<and> v \<le> MAX_SLOTS \<longrightarrow> slotToCar (emergencyMode s) ! v = - 1"
    unfolding t(3) by (auto simp: nth_Cons')
  moreover have "free_slots (slotToCar (emergencyMode s)) = {v. 1 \<le> v \<and> v \<le> int MAX_SLOTS}"
    unfolding t(3) by (rule free_slots_clear)
  moreover have "waitCount (waitq (emergencyMode s)) = 0"
    "queue_list (waitq (emergencyMode s)) = []"
    "waitFront (waitq (emergencyMode s)) = 0" "waitRear (waitq (emergencyMode s)) = - 1"
    unfolding t(4) by (simp_all add: queue_list_def)
  ultimately show "slotOfCar (emergencyMode s) = replicate MAX_CARS (- 1) \<and>
   entryTimeOfCar (emergencyMode s) = replicate MAX_CARS 0 \<and>
   (\<forall>v. 1 \<le> v \<and> v \<le> MAX_SLOTS \<longrightarrow> slotToCar (emergencyMode s) ! v = - 1) \<and>
   free_slots (slotToCar (emergencyMode s)) = {v. 1 \<le> v \<and> v \<le> int MAX_SLOTS} \<and>
   heap_ok (heap (emergencyMode s)) \<and> heapSize (heap (emergencyMode s)) = MAX_SLOTS \<and>
   distinct (heap_list (heap (emergencyMode s))) \<and>
   set (heap_list (heap (emergencyMode s))) = {v. 1 \<le> v \<and> v \<le> int MAX_SLOTS} \<and>
   waitCount (waitq (emergencyMode s)) = 0 \<and> queue_list (waitq (emergencyMode s)) = [] \<and>
   waitFront (waitq (emergencyMode s)) = 0 \<and> waitRear (waitq (emergencyMode s)) = - 1 \<and>
   totalRevenue (emergencyMode s) = totalRevenue s \<and>
   history (emergencyMode s) = history s"
    using t(1,2) h f by simp
qed

theorem emergencyMode_resets_witness:
  "arrays_ok after_exit \<and> slotOfCar after_exit ! 10 = 4 \<and>
   slotOfCar (emergencyMode after_exit) ! 10 = - 1 \<and>
   entryTimeOfCar (emergencyMode after_exit) ! 10 = 0 \<and>
   slotToCar (emergencyMode after_exit) ! 4 = - 1 \<and>
   heapSize (heap (emergencyMode after_exit)) = 10 \<and>
   waitCount (waitq after_exit) = 1 \<and> waitCount (waitq (emergencyMode after_exit)) = 0 \<and>
   totalRevenue (emergencyMode after_exit) = 100 \<and>
   length (history (emergencyMode after_exit)) = 11"
proof -
  have a: "arrays_ok after_exit"
    by (rule sys_inv_arrays_ok[OF reachable_sys_inv[OF reachable_after_exit]])
  have e: "slotOfCar after_exit ! 10 = 4" "waitCount (waitq after_exit) = 1"
    "totalRevenue after_exit = 100" "length (history after_exit) = 11" by code_simp+
  note t = emergencyMode_resets[of after_exit, rule_format, OF a]
  show ?thesis using t a e by simp
qed

subsection \<open>C7: A waiting car leaves\<close>

text \<open>
  C7. When a waiting car asks to leave, in a reachable state, it is taken out of the queue,
  the other cars keep their order, the queue is one shorter, the car is absent, and
  nothing else changes: no fee is added and the history list is left as it was.
\<close>

theorem waiting_car_leaves:
  "reachable s \<and> 0 \<le> car \<and> car < int MAX_CARS \<and> slotOfCar s ! nat car = - 2 \<longrightarrow>
   car \<in> set (queue_list (waitq s)) \<and>
   fst (vehicleExit (Some car) now now2 alloc s) = Exit_removed_from_waiting \<and>
   queue_list (waitq (snd (vehicleExit (Some car) now now2 alloc s))) =
     filter (\<lambda>w. w \<noteq> car) (queue_list (waitq s)) \<and>
   queue_list (waitq (snd (vehicleExit (Some car) now now2 alloc s))) =
     remove1 car (queue_list (waitq s)) \<and>
   Suc (waitCount (waitq (snd (vehicleExit (Some car) now now2 alloc s)))) = waitCount (waitq s) \<and>
   slotOfCar (snd (vehicleExit (Some car) now now2 alloc s)) = (slotOfCar s)[nat car := - 1] \<and>
   slotOfCar (snd (vehicleExit (Some car) now now2 alloc s)) ! nat car = - 1 \<and>
   totalRevenue (snd (vehicleExit (Some car) now now2 alloc s)) = totalRevenue s \<and>
   history (snd (vehicleExit (Some car) now now2 alloc s)) = history s \<and>
   heap (snd (vehicleExit (Some car) now now2 alloc s)) = heap s \<and>
   slotToCar (snd (vehicleExit (Some car) now now2 alloc s)) = slotToCar s \<and>
   entryTimeOfCar (snd (vehicleExit (Some car) now now2 alloc s)) = entryTimeOfCar s \<and>
   passUser (snd (vehicleExit (Some car) now now2 alloc s)) = passUser s"
proof
  assume a: "reachable s \<and> 0 \<le> car \<and> car < int MAX_CARS \<and> slotOfCar s ! nat car = - 2"
  then have i: "sys_inv s" and c: "0 \<le> car" "car < int MAX_CARS" "slotOfCar s ! nat car = - 2"
    by (simp_all add: reachable_sys_inv)
  note d = sys_invD[OF i]
  note x = vehicleExit_waiting[OF i c, of now now2 alloc]
  define s' where "s' = snd (vehicleExit (Some car) now now2 alloc s)"
  have mem: "car \<in> set (queue_list (waitq s))" by (rule waiting_in_queue[OF i c])
  have fields: "slotOfCar s' = (slotOfCar s)[nat car := - 1]" "totalRevenue s' = totalRevenue s"
    "history s' = history s" "heap s' = heap s" "slotToCar s' = slotToCar s"
    "entryTimeOfCar s' = entryTimeOfCar s" "passUser s' = passUser s"
    unfolding s'_def by (subst x(2), simp)+
  have q: "queue_list (waitq s') = filter (\<lambda>w. w \<noteq> car) (queue_list (waitq s))"
    using x(4) by (simp add: s'_def)
  have r: "queue_list (waitq s') = remove1 car (queue_list (waitq s))"
    using q filter_remove1[OF d(8)] by simp
  have "length (queue_list (waitq s')) = length (queue_list (waitq s)) - 1"
    unfolding r using mem by (simp add: length_remove1 del: length_queue_list)
  moreover have "0 < length (queue_list (waitq s))"
    using mem by (cases "queue_list (waitq s)") (auto simp del: length_queue_list)
  ultimately have n: "Suc (waitCount (waitq s')) = waitCount (waitq s)" by simp
  have "nat car < length (slotOfCar s)" using c occupancy_len(1)[OF d(1)] by simp
  then have ab: "slotOfCar s' ! nat car = - 1" unfolding fields(1) by simp
  show "car \<in> set (queue_list (waitq s)) \<and>
   fst (vehicleExit (Some car) now now2 alloc s) = Exit_removed_from_waiting \<and>
   queue_list (waitq (snd (vehicleExit (Some car) now now2 alloc s))) =
     filter (\<lambda>w. w \<noteq> car) (queue_list (waitq s)) \<and>
   queue_list (waitq (snd (vehicleExit (Some car) now now2 alloc s))) =
     remove1 car (queue_list (waitq s)) \<and>
   Suc (waitCount (waitq (snd (vehicleExit (Some car) now now2 alloc s)))) = waitCount (waitq s) \<and>
   slotOfCar (snd (vehicleExit (Some car) now now2 alloc s)) = (slotOfCar s)[nat car := - 1] \<and>
   slotOfCar (snd (vehicleExit (Some car) now now2 alloc s)) ! nat car = - 1 \<and>
   totalRevenue (snd (vehicleExit (Some car) now now2 alloc s)) = totalRevenue s \<and>
   history (snd (vehicleExit (Some car) now now2 alloc s)) = history s \<and>
   heap (snd (vehicleExit (Some car) now now2 alloc s)) = heap s \<and>
   slotToCar (snd (vehicleExit (Some car) now now2 alloc s)) = slotToCar s \<and>
   entryTimeOfCar (snd (vehicleExit (Some car) now now2 alloc s)) = entryTimeOfCar s \<and>
   passUser (snd (vehicleExit (Some car) now now2 alloc s)) = passUser s"
    unfolding s'_def[symmetric] using mem x(1) q r n fields ab by simp
qed

theorem waiting_car_leaves_witness:
  "reachable all_taken \<and> slotOfCar all_taken ! nat 14 = - 2 \<and>
   queue_list (waitq all_taken) = [10, 11, 12, 13, 14, 15, 16, 17, 18, 19] \<and>
   fst (vehicleExit (Some 14) 5 6 True all_taken) = Exit_removed_from_waiting \<and>
   queue_list (waitq (snd (vehicleExit (Some 14) 5 6 True all_taken))) =
     [10, 11, 12, 13, 15, 16, 17, 18, 19] \<and>
   waitCount (waitq (snd (vehicleExit (Some 14) 5 6 True all_taken))) = 9 \<and>
   slotOfCar (snd (vehicleExit (Some 14) 5 6 True all_taken)) ! nat 14 = - 1 \<and>
   totalRevenue (snd (vehicleExit (Some 14) 5 6 True all_taken)) = totalRevenue all_taken \<and>
   history (snd (vehicleExit (Some 14) 5 6 True all_taken)) = history all_taken"
proof -
  have e: "slotOfCar all_taken ! nat 14 = - 2"
    "queue_list (waitq all_taken) = [10, 11, 12, 13, 14, 15, 16, 17, 18, 19]"
    "waitCount (waitq all_taken) = 10" "length (slotOfCar all_taken) = 100" by code_simp+
  note t = waiting_car_leaves[of all_taken 14 5 6 True, rule_format]
  show ?thesis using t e reachable_scenarios(4) by simp
qed

subsection \<open>C8: The history list\<close>

text \<open>
  C8 (amended). The head of the history list is its newest record. When \<open>malloc\<close>
  provides the node, \<open>addHistoryNode\<close> puts the new record at the head, and the record of
  an entry is open (exit time 0); when it does not, the list is left as it was. The exit
  of a parked car sets the exit time of the first record, from the head, that is open and
  has the car and its slot, and changes no other record; when no record matches, the
  list is left as it was and the exit goes on. A record of a promoted car may then be
  put before the others.
\<close>

theorem history_newest_first:
  "history (addHistoryNode alloc car slot entry exitT s) =
     (if alloc then \<lparr>ncar = car, nslot = slot, entryTime = entry, exitTime = exitT\<rparr> # history s
      else history s) \<and>
   (fst (vehicleEntry (Some car) now alloc s) = Entry_parked slot t \<longrightarrow>
      history (snd (vehicleEntry (Some car) now alloc s)) =
        (if alloc then \<lparr>ncar = car, nslot = slot, entryTime = t, exitTime = 0\<rparr> # history s
         else history s)) \<and>
   (0 \<le> car \<and> car < int MAX_CARS \<and> 1 \<le> slotOfCar s ! nat car \<longrightarrow>
      fst (vehicleExit (Some car) now now2 alloc s) =
        Exited (slotOfCar s ! nat car)
          (exit_fee (passUser s ! nat car) now (entryTimeOfCar s ! nat car))
          (fst (promote_waiting now2 alloc (snd (release_slot car now s)))) \<and>
      history (snd (release_slot car now s)) =
        close_history car (slotOfCar s ! nat car) now (history s) \<and>
      history (snd (vehicleExit (Some car) now now2 alloc s)) =
        (case fst (promote_waiting now2 alloc (snd (release_slot car now s))) of
           None \<Rightarrow> []
         | Some (newSlot, nxt) \<Rightarrow>
             if alloc then [\<lparr>ncar = nxt, nslot = newSlot, entryTime = now2, exitTime = 0\<rparr>]
             else [])
        @ close_history car (slotOfCar s ! nat car) now (history s)) \<and>
   ((\<forall>u \<in> set pre. \<not> (ncar u = car \<and> nslot u = slot \<and> exitTime u = 0)) \<and>
    ncar r = car \<and> nslot r = slot \<and> exitTime r = 0 \<longrightarrow>
      close_history car slot now (pre @ r # post) = pre @ r\<lparr>exitTime := now\<rparr> # post) \<and>
   ((\<forall>u \<in> set hs. \<not> (ncar u = car \<and> nslot u = slot \<and> exitTime u = 0)) \<longrightarrow>
      close_history car slot now hs = hs)"
proof (intro conjI impI)
  show "history (addHistoryNode alloc car slot entry exitT s) =
     (if alloc then \<lparr>ncar = car, nslot = slot, entryTime = entry, exitTime = exitT\<rparr> # history s
      else history s)"
    by (simp add: addHistoryNode_def)
next
  assume "fst (vehicleEntry (Some car) now alloc s) = Entry_parked slot t"
  then show "history (snd (vehicleEntry (Some car) now alloc s)) =
        (if alloc then \<lparr>ncar = car, nslot = slot, entryTime = t, exitTime = 0\<rparr> # history s
         else history s)"
    using history_vehicleEntry[of "Some car" now alloc s] by simp
next
  assume a: "0 \<le> car \<and> car < int MAX_CARS \<and> 1 \<le> slotOfCar s ! nat car"
  then have p: "0 \<le> car" "car < int MAX_CARS" "slotOfCar s ! nat car \<noteq> - 1"
    "slotOfCar s ! nat car \<noteq> - 2" by simp_all
  show "fst (vehicleExit (Some car) now now2 alloc s) =
        Exited (slotOfCar s ! nat car)
          (exit_fee (passUser s ! nat car) now (entryTimeOfCar s ! nat car))
          (fst (promote_waiting now2 alloc (snd (release_slot car now s))))"
    unfolding vehicleExit_parked[OF p] by (simp add: release_slot_eq)
  show h1: "history (snd (release_slot car now s)) =
        close_history car (slotOfCar s ! nat car) now (history s)"
    by (simp add: release_slot_eq)
  show "history (snd (vehicleExit (Some car) now now2 alloc s)) =
        (case fst (promote_waiting now2 alloc (snd (release_slot car now s))) of
           None \<Rightarrow> []
         | Some (newSlot, nxt) \<Rightarrow>
             if alloc then [\<lparr>ncar = nxt, nslot = newSlot, entryTime = now2, exitTime = 0\<rparr>]
             else [])
        @ close_history car (slotOfCar s ! nat car) now (history s)"
    unfolding vehicleExit_parked[OF p] snd_conv history_promote_waiting h1
    by (simp split: option.splits)
next
  assume "(\<forall>u \<in> set pre. \<not> (ncar u = car \<and> nslot u = slot \<and> exitTime u = 0)) \<and>
    ncar r = car \<and> nslot r = slot \<and> exitTime r = 0"
  then show "close_history car slot now (pre @ r # post) = pre @ r\<lparr>exitTime := now\<rparr> # post"
    by (intro close_history_first_match) simp_all
next
  assume "\<forall>u \<in> set hs. \<not> (ncar u = car \<and> nslot u = slot \<and> exitTime u = 0)"
  then show "close_history car slot now hs = hs"
    by (rule close_history_no_match)
qed

theorem history_newest_first_witness:
  "history two_waiting =
     map (\<lambda>i. \<lparr>ncar = i, nslot = i + 1, entryTime = 1000, exitTime = 0\<rparr>) [9, 8, 7, 6, 5, 4, 3, 2, 1, 0] \<and>
   fst (vehicleEntry (Some 7) 1000 True fresh) = Entry_parked 1 1000 \<and>
   history (snd (vehicleEntry (Some 7) 1000 True fresh)) =
     [\<lparr>ncar = 7, nslot = 1, entryTime = 1000, exitTime = 0\<rparr>] \<and>
   slotOfCar two_waiting ! nat 3 = 4 \<and>
   history (snd (release_slot 3 4601 two_waiting)) =
     map (\<lambda>i. \<lparr>ncar = i, nslot = i + 1, entryTime = 1000, exitTime = 0\<rparr>) [9, 8, 7, 6, 5, 4]
     @ \<lparr>ncar = 3, nslot = 4, entryTime = 1000, exitTime = 4601\<rparr>
     # map (\<lambda>i. \<lparr>ncar = i, nslot = i + 1, entryTime = 1000, exitTime = 0\<rparr>) [2, 1, 0] \<and>
   hd (history (snd (vehicleExit (Some 3) 4601 4700 True two_waiting))) =
     \<lparr>ncar = 10, nslot = 4, entryTime = 4700, exitTime = 0\<rparr> \<and>
   close_history 3 9 4601 (history two_waiting) = history two_waiting"
proof -
  let ?rec = "\<lambda>i. \<lparr>ncar = i, nslot = i + 1, entryTime = 1000, exitTime = 0\<rparr>"
  have e: "history two_waiting = map ?rec [9, 8, 7, 6, 5, 4] @ ?rec 3 # map ?rec [2, 1, 0]"
    "fst (vehicleEntry (Some 7) 1000 True fresh) = Entry_parked 1 1000"
    "history fresh = []" "slotOfCar two_waiting ! nat 3 = 4"
    "fst (promote_waiting 4700 True (snd (release_slot 3 4601 two_waiting))) = Some (4, 10)"
    by code_simp+
  note t = history_newest_first[where alloc = True and car = 7 and slot = 1 and s = fresh
      and now = 1000 and t = 1000]
  note u = history_newest_first[where alloc = True and car = 3 and slot = 4 and s = two_waiting
      and now = 4601 and ?now2.0 = 4700 and pre = "map ?rec [9, 8, 7, 6, 5, 4]" and r = "?rec 3"
      and post = "map ?rec [2, 1, 0]"]
  note v = history_newest_first[where car = 3 and slot = 9 and now = 4601
      and hs = "history two_waiting"]
  have "history (snd (vehicleEntry (Some 7) 1000 True fresh)) = [?rec 0\<lparr>ncar := 7\<rparr>]"
    using t e(2,3) by simp
  moreover have "history (snd (release_slot 3 4601 two_waiting)) =
     map ?rec [9, 8, 7, 6, 5, 4] @ (?rec 3)\<lparr>exitTime := 4601\<rparr> # map ?rec [2, 1, 0]"
    using u e(1,4) by simp
  moreover have "hd (history (snd (vehicleExit (Some 3) 4601 4700 True two_waiting))) =
     \<lparr>ncar = 10, nslot = 4, entryTime = 4700, exitTime = 0\<rparr>"
    using u e(4,5) by simp
  moreover have "close_history 3 9 4601 (history two_waiting) = history two_waiting"
    using v unfolding e(1) by simp
  ultimately show ?thesis using e by simp
qed

text \<open>
  The claim as the specification states it fails when \<open>malloc\<close> gives no node: car 7 is
  parked in slot 1, and the history list stays empty.
\<close>

theorem history_newest_first_counterexample:
  "history fresh = [] \<and>
   history (addHistoryNode False 7 1 1000 0 fresh) = [] \<and>
   fst (vehicleEntry (Some 7) 1000 False fresh) = Entry_parked 1 1000 \<and>
   slotOfCar (snd (vehicleEntry (Some 7) 1000 False fresh)) ! nat 7 = 1 \<and>
   history (snd (vehicleEntry (Some 7) 1000 False fresh)) = []"
  by code_simp

subsection \<open>C9: Cars wait only when the lot is full\<close>

text \<open>
  C9. In every reachable state cars wait only while the heap is empty and no slot is
  free. So when a parked car leaves, the \<open>heapRemoveMin\<close> that follows \<open>heapInsert(slot)\<close>
  does not return \<open>-1\<close>: with cars waiting it returns the slot just released, the front
  car gets it, and the queue is its old tail (the car is not put back).
\<close>

theorem waiting_implies_no_free_slot:
  "reachable s \<longrightarrow>
   (0 < waitCount (waitq s) \<longrightarrow> heapSize (heap s) = 0 \<and> free_slots (slotToCar s) = {}) \<and>
   (0 \<le> car \<and> car < int MAX_CARS \<and> 1 \<le> slotOfCar s ! nat car \<longrightarrow>
      fst (heapRemoveMin (heap (snd (release_slot car now s)))) \<noteq> - 1 \<and>
      (0 < waitCount (waitq s) \<longrightarrow>
         fst (heapRemoveMin (heap (snd (release_slot car now s)))) = slotOfCar s ! nat car \<and>
         fst (promote_waiting now2 alloc (snd (release_slot car now s))) =
           Some (slotOfCar s ! nat car, hd (queue_list (waitq s))) \<and>
         queue_list (waitq (snd (vehicleExit (Some car) now now2 alloc s))) =
           tl (queue_list (waitq s))))"
proof (intro impI conjI)
  assume r: "reachable s"
  then have i: "sys_inv s" by (rule reachable_sys_inv)
  note d = sys_invD[OF i]
  {
    assume w: "0 < waitCount (waitq s)"
    show h0: "heapSize (heap s) = 0" using d(10) w by simp
    then have "length (heap_list (heap s)) = 0" by simp
    then have "heap_list (heap s) = []" by (simp del: length_heap_list)
    then show "free_slots (slotToCar s) = {}" using d(6) by simp
  }
  assume c: "0 \<le> car \<and> car < int MAX_CARS \<and> 1 \<le> slotOfCar s ! nat car"
  then have p: "0 \<le> car" "car < int MAX_CARS" "slotOfCar s ! nat car \<noteq> - 1"
    "slotOfCar s ! nat car \<noteq> - 2" by simp_all
  define s1 where "s1 = snd (release_slot car now s)"
  note rel = release_slot_inv[OF i p, of now, folded s1_def]
  note k = core_invD[OF rel(1)]
  have pos: "0 < heapSize (heap s1)" using rel(2) by simp
  note t = heap_take[OF k(4,5,6) pos occupancy_len(2)[OF k(1)] p(1)]
  show "fst (heapRemoveMin (heap (snd (release_slot car now s)))) \<noteq> - 1"
    using free_slots_range[OF t(2)] by (auto simp: s1_def)
  assume w: "0 < waitCount (waitq s)"
  have wq: "waitq s1 = waitq s" by (simp add: s1_def release_slot_eq)
  have "heapSize (heap s) = 0" using d(10) w by simp
  then have "length (heap_list (heap s)) = 0" by simp
  then have "heap_list (heap s) = []" by (simp del: length_heap_list)
  then have "free_slots (slotToCar s) = {}" using d(6) by simp
  then have fs: "free_slots (slotToCar s1) = {slotOfCar s ! nat car}" using rel(3) by simp
  show "fst (heapRemoveMin (heap (snd (release_slot car now s)))) = slotOfCar s ! nat car"
    using t(1) fs by (simp add: s1_def)
  have w1: "0 < waitCount (waitq s1)" using w wq by simp
  note pr = promote_waiting_some[OF rel(1) w1 pos, of now2 alloc]
  show "fst (promote_waiting now2 alloc (snd (release_slot car now s))) =
           Some (slotOfCar s ! nat car, hd (queue_list (waitq s)))"
    using pr(1) fs wq by (simp add: s1_def)
  show "queue_list (waitq (snd (vehicleExit (Some car) now now2 alloc s))) =
           tl (queue_list (waitq s))"
    using pr(4) wq by (simp add: vehicleExit_parked[OF p] s1_def)
qed

theorem waiting_implies_no_free_slot_witness:
  "reachable two_waiting \<and> 0 < waitCount (waitq two_waiting) \<and>
   heapSize (heap two_waiting) = 0 \<and> free_slots (slotToCar two_waiting) = {} \<and>
   slotOfCar two_waiting ! nat 3 = 4 \<and>
   fst (heapRemoveMin (heap (snd (release_slot 3 50 two_waiting)))) = 4 \<and>
   fst (promote_waiting 60 True (snd (release_slot 3 50 two_waiting))) = Some (4, 10) \<and>
   queue_list (waitq (snd (vehicleExit (Some 3) 50 60 True two_waiting))) = [11]"
proof -
  have e: "0 < waitCount (waitq two_waiting)" "slotOfCar two_waiting ! nat 3 = 4"
    "queue_list (waitq two_waiting) = [10, 11]" by code_simp+
  note t = waiting_implies_no_free_slot[of two_waiting 3 50 60 True, rule_format,
      OF reachable_scenarios(3)]
  show ?thesis using t e reachable_scenarios(3) by simp
qed

subsection \<open>C10: Passes outlive the emergency reset\<close>

text \<open>
  C10. \<open>emergencyMode\<close> leaves \<open>passUser\<close> as it was. A car whose pass flag is set before
  the reset keeps it through the reset and through every later command, and every later
  exit of the car is charged 0.
\<close>

theorem emergencyMode_keeps_passes:
  "passUser (emergencyMode s) = passUser s \<and>
   (passUser s ! nat car \<noteq> 0 \<longrightarrow>
      passUser (run cs (emergencyMode s)) ! nat car \<noteq> 0 \<and>
      (\<forall>slot fee p.
         fst (vehicleExit (Some car) now now2 alloc (run cs (emergencyMode s))) = Exited slot fee p
         \<longrightarrow> fee = 0))"
proof (intro conjI impI allI)
  show "passUser (emergencyMode s) = passUser s" by (rule emergencyMode_frame(1))
next
  assume "passUser s ! nat car \<noteq> 0"
  then have "passUser (emergencyMode s) ! nat car \<noteq> 0" by (simp add: emergencyMode_frame(1))
  then show k: "passUser (run cs (emergencyMode s)) ! nat car \<noteq> 0" by (rule pass_kept_run)
  fix slot fee p
  assume "fst (vehicleExit (Some car) now now2 alloc (run cs (emergencyMode s))) = Exited slot fee p"
  from vehicleExit_exited[OF this] k show "fee = 0" by (auto simp: exit_fee_pass)
qed

theorem emergencyMode_keeps_passes_witness:
  "passUser (snd (addMonthlyPass 3 two_waiting)) ! nat 3 = 1 \<and>
   passUser (emergencyMode (snd (addMonthlyPass 3 two_waiting))) ! nat 3 = 1 \<and>
   fst (vehicleExit (Some 3) 9000 9001 True
         (run [Entry (Some 3) 1000 True] (emergencyMode (snd (addMonthlyPass 3 two_waiting)))))
     = Exited 1 0 None"
proof -
  let ?s = "snd (addMonthlyPass 3 two_waiting)"
  have e: "passUser ?s ! nat 3 = 1" by code_simp
  have y: "fst (vehicleExit (Some 3) 9000 9001 True
         (run [Entry (Some 3) 1000 True] (emergencyMode ?s))) = Exited 1 0 None" by code_simp
  show ?thesis
    using emergencyMode_keeps_passes[of ?s 3 "[Entry (Some 3) 1000 True]" 9000 9001 True] e y
    by simp
qed

end
